theory Spec2Isabelle
  imports Main
begin

section \<open>The image and the errors of blur.c\<close>

text \<open>
  The variables \<open>w\<close>, \<open>h\<close>, \<open>maxv\<close> and the buffer \<open>pix\<close> of \<open>main\<close> form the image.
  Values of the C types \<open>int\<close> and \<open>long long\<close> are integers; where the source can leave
  the range of its type (the conversion of \<open>fscanf\<close>, the product \<open>nvals\<close>) the
  wrap-around is written out.
\<close>

record image =
  width :: int
  height :: int
  max_value :: int
  channels :: "int list"

text \<open>
  Every \<open>error_exit\<close> of the source is one error value:
  \<open>HeaderUnreadable\<close> "Could not read PPM header",
  \<open>UnsupportedFormat\<close> "Only P3 PPM format is supported",
  \<open>TruncatedHeader\<close> "Missing width/height/maxval",
  \<open>MalformedInteger\<close> "Bad integer in file",
  \<open>InvalidDimensions\<close> "Width and height must be positive",
  \<open>InvalidMaxValue\<close> "Max color value must be 1..65535",
  \<open>ImageTooLarge\<close> "Image too large",
  \<open>OutOfMemory\<close> "Out of memory",
  \<open>UnexpectedEndOfData\<close> "Unexpected EOF in pixel data",
  \<open>PixelOutOfRange\<close> "Pixel value out of range".
\<close>

datatype error =
    HeaderUnreadable
  | UnsupportedFormat
  | TruncatedHeader
  | MalformedInteger
  | InvalidDimensions
  | InvalidMaxValue
  | ImageTooLarge
  | OutOfMemory
  | UnexpectedEndOfData
  | PixelOutOfRange

section \<open>The convolution\<close>

definition clamp :: "int \<Rightarrow> int \<Rightarrow> int \<Rightarrow> int" where
  "clamp v lo hi = (if v < lo then lo else if v > hi then hi else v)"

text \<open>The division of C truncates towards zero.\<close>

definition c_div :: "int \<Rightarrow> int \<Rightarrow> int" where
  "c_div a b = sgn a * sgn b * (\<bar>a\<bar> div \<bar>b\<bar>)"

definition K :: "int list list" where
  "K = [[1, 2, 3, 2, 1],
        [2, 4, 6, 4, 2],
        [3, 6, 9, 6, 3],
        [2, 4, 6, 4, 2],
        [1, 2, 3, 2, 1]]"

definition KSUM :: int where
  "KSUM = 81"

text \<open>The two inner loops over \<open>ky\<close> and \<open>kx\<close>, lines 112 to 121: the accumulator \<open>acc\<close>.\<close>

definition accumulate :: "int list \<Rightarrow> int \<Rightarrow> int \<Rightarrow> int \<Rightarrow> int \<Rightarrow> int \<Rightarrow> int" where
  "accumulate pix w h x y ch =
     fold (\<lambda>ky acc.
        let sy = clamp (y + ky) 0 (h - 1) in
        fold (\<lambda>kx acc.
           let sx = clamp (x + kx) 0 (w - 1);
               kval = K ! nat (ky + 2) ! nat (kx + 2);
               idx = (sy * w + sx) * 3 + ch
           in acc + kval * pix ! nat idx) [-2..2] acc) [-2..2] 0"

text \<open>Lines 124 and 125: the rounded division, then the clamp.\<close>

definition round_div :: "int \<Rightarrow> int" where
  "round_div acc = c_div (acc + c_div KSUM 2) KSUM"

definition blur_value :: "int list \<Rightarrow> int \<Rightarrow> int \<Rightarrow> int \<Rightarrow> int \<Rightarrow> int \<Rightarrow> int \<Rightarrow> int" where
  "blur_value pix w h maxv x y ch =
     (let val = round_div (accumulate pix w h x y ch) in clamp val 0 maxv)"

text \<open>The same body with line 125 removed.\<close>

definition blur_value_unclamped :: "int list \<Rightarrow> int \<Rightarrow> int \<Rightarrow> int \<Rightarrow> int \<Rightarrow> int \<Rightarrow> int" where
  "blur_value_unclamped pix w h x y ch = round_div (accumulate pix w h x y ch)"

text \<open>
  The three outer loops, lines 109 to 130, store \<open>val\<close> at \<open>out_idx\<close>; the buffer
  \<open>outpix\<close> is passed through them.
\<close>

definition out_idx :: "int \<Rightarrow> int \<Rightarrow> int \<Rightarrow> int \<Rightarrow> int" where
  "out_idx w x y ch = (y * w + x) * 3 + ch"

definition blur_loops :: "(int \<Rightarrow> int \<Rightarrow> int \<Rightarrow> int) \<Rightarrow> int \<Rightarrow> int \<Rightarrow> int list \<Rightarrow> int list" where
  "blur_loops val w h outpix =
     fold (\<lambda>y out.
        fold (\<lambda>x out.
           fold (\<lambda>ch out. out[nat (out_idx w x y ch) := val x y ch]) [0..2] out)
          [0..w - 1] out)
       [0..h - 1] outpix"

text \<open>
  \<open>outpix\<close> comes from \<open>malloc\<close> with \<open>nvals\<close> elements, as many as \<open>pix\<close> has; its
  content before the loops is not specified, zeros stand for it (\<open>blur_loops_init\<close> shows
  that it does not matter).
\<close>

definition blur :: "image \<Rightarrow> image" where
  "blur img =
     img\<lparr>channels :=
       blur_loops (blur_value (channels img) (width img) (height img) (max_value img))
         (width img) (height img)
         (replicate (length (channels img)) 0)\<rparr>"

definition blur_unclamped :: "image \<Rightarrow> image" where
  "blur_unclamped img =
     img\<lparr>channels :=
       blur_loops (blur_value_unclamped (channels img) (width img) (height img))
         (width img) (height img)
         (replicate (length (channels img)) 0)\<rparr>"

text \<open>The invariant of the image in memory, section 3 of the specification.\<close>

definition valid_image :: "image \<Rightarrow> bool" where
  "valid_image img =
     (0 < width img \<and> 0 < height img \<and> 1 \<le> max_value img \<and> max_value img \<le> 65535 \<and>
      int (length (channels img)) = width img * height img * 3 \<and>
      list_all (\<lambda>v. 0 \<le> v \<and> v \<le> max_value img) (channels img))"


text \<open>
  The reference definition of one output value, in the words of section 4.4 of the
  specification: the weighted sum over the offsets in \<open>[-2,2]\<times>[-2,2]\<close> of the samples at
  the clamped coordinates, divided with rounding by the sum of the weights, then clamped.
  \<open>input_at\<close> is the index mapping of section 3.
\<close>

definition weight :: "int \<Rightarrow> int \<Rightarrow> int" where
  "weight kx ky = K ! nat (ky + 2) ! nat (kx + 2)"

definition input_at :: "image \<Rightarrow> int \<Rightarrow> int \<Rightarrow> int \<Rightarrow> int" where
  "input_at img sy sx c = channels img ! nat ((sy * width img + sx) * 3 + c)"

definition clamp_to :: "int \<Rightarrow> int \<Rightarrow> int \<Rightarrow> int" where
  "clamp_to v lo hi = max lo (min hi v)"

definition reference_pixel :: "image \<Rightarrow> int \<Rightarrow> int \<Rightarrow> int \<Rightarrow> int" where
  "reference_pixel img x y c =
     (let accumulator =
            (\<Sum>ky\<in>{-2..2}. \<Sum>kx\<in>{-2..2}.
               weight kx ky *
               input_at img (clamp_to (y + ky) 0 (height img - 1))
                 (clamp_to (x + kx) 0 (width img - 1)) c);
          divisor = 81
      in clamp_to ((accumulator + divisor div 2) div divisor) 0 (max_value img))"

section \<open>The tokenizer\<close>

text \<open>
  A file is the list of its bytes; reading returns the rest of the list. \<open>isspace\<close> and
  \<open>isdigit\<close> are those of the C locale; \<open>fscanf\<close> and \<open>fprintf\<close> are the C library's,
  written out here for the conversions \<open>%2s\<close> and \<open>%d\<close> that the source uses.
\<close>

definition newline :: char where
  "newline = CHR 0x0A"

definition isspace :: "char \<Rightarrow> bool" where
  "isspace c = (c = CHR 0x20 \<or> c = CHR 0x09 \<or> c = CHR 0x0A \<or> c = CHR 0x0B \<or> c = CHR 0x0C \<or> c = CHR 0x0D)"

definition isdigit :: "char \<Rightarrow> bool" where
  "isdigit c = (48 \<le> (of_char c :: nat) \<and> (of_char c :: nat) \<le> 57)"

definition digit_val :: "char \<Rightarrow> int" where
  "digit_val c = int (of_char c) - 48"

definition decimal :: "string \<Rightarrow> int" where
  "decimal ds = foldl (\<lambda>v c. 10 * v + digit_val c) 0 ds"

text \<open>
  Two's complement wrap-around to 32 and to 64 bits. A \<open>%d\<close> whose digits leave the
  range of \<open>int\<close> is not defined by the C standard; \<open>store_int\<close> is what glibc does
  (the value of \<open>strtol\<close>, which saturates at the bounds of \<open>long\<close>, cut to 32 bits).
\<close>

definition wrap32 :: "int \<Rightarrow> int" where
  "wrap32 v = (v + 2 ^ 31) mod 2 ^ 32 - 2 ^ 31"

definition wrap64 :: "int \<Rightarrow> int" where
  "wrap64 v = (v + 2 ^ 63) mod 2 ^ 64 - 2 ^ 63"

definition store_int :: "int \<Rightarrow> int" where
  "store_int v = wrap32 (max (- (2 ^ 63)) (min (2 ^ 63 - 1) v))"

text \<open>\<open>fscanf(fp, "%d", out)\<close> at a byte that is not white space: an optional sign, then digits.\<close>

definition scan_int :: "string \<Rightarrow> (int \<times> string) option" where
  "scan_int s =
     (let (neg, s1) =
            (case s of
               [] \<Rightarrow> (False, s)
             | c # cs \<Rightarrow>
                 if c = CHR ''-'' then (True, cs)
                 else if c = CHR ''+'' then (False, cs)
                 else (False, s));
          ds = takeWhile isdigit s1
      in if ds = [] then None
         else Some (store_int (if neg then - decimal ds else decimal ds), dropWhile isdigit s1))"

text \<open>Line 35: the bytes of a comment up to and with the newline; \<open>None\<close> at the end of the file.\<close>

fun skip_line :: "string \<Rightarrow> string option" where
  "skip_line [] = None"
| "skip_line (c # cs) = (if c = newline then Some cs else skip_line cs)"

lemma skip_line_length: "skip_line cs = Some r \<Longrightarrow> length r < Suc (length cs)"
  by (induction cs) (auto split: if_splits)

text \<open>
  Lines 27 to 43: white space and comments are skipped; \<open>None\<close> is the return of 0 at the
  end of the file, \<open>Some s\<close> leaves the first byte of the token at the head (\<open>ungetc\<close>).
\<close>

function skip_blank :: "string \<Rightarrow> string option" where
  "skip_blank [] = None"
| "skip_blank (c # cs) =
     (if isspace c then skip_blank cs
      else if c = CHR ''#'' then (case skip_line cs of None \<Rightarrow> None | Some r \<Rightarrow> skip_blank r)
      else Some (c # cs))"
  by pat_completeness auto
termination
  by (relation "measure length") (auto dest: skip_line_length)

text \<open>
  \<open>read_int\<close>: \<open>Eof\<close> is the return of 0, \<open>Bad\<close> the exit "Bad integer in file",
  \<open>Got v r\<close> the return of 1 with \<open>*out = v\<close> and the file at \<open>r\<close>.
\<close>

datatype read_result = Eof | Bad | Got int string

definition read_int :: "string \<Rightarrow> read_result" where
  "read_int s =
     (case skip_blank s of
        None \<Rightarrow> Eof
      | Some t \<Rightarrow> (case scan_int t of None \<Rightarrow> Bad | Some (v, r) \<Rightarrow> Got v r))"

section \<open>The header and the pixel data\<close>

text \<open>
  \<open>fscanf(in, "%2s", magic)\<close>: white space is skipped, then at most two bytes that are
  not white space are stored; \<open>None\<close> when the file ends before any.
\<close>

definition read_magic :: "string \<Rightarrow> (string \<times> string) option" where
  "read_magic s =
     (let t = dropWhile isspace s;
          m = take 2 (takeWhile (\<lambda>c. \<not> isspace c) t)
      in if m = [] then None else Some (m, drop (length m) t))"

text \<open>Lines 76 and 77.\<close>

definition read_header :: "string \<Rightarrow> error + ((int \<times> int \<times> int) \<times> string)" where
  "read_header s =
     (case read_int s of
        Eof \<Rightarrow> Inl TruncatedHeader
      | Bad \<Rightarrow> Inl MalformedInteger
      | Got w s1 \<Rightarrow>
          (case read_int s1 of
             Eof \<Rightarrow> Inl TruncatedHeader
           | Bad \<Rightarrow> Inl MalformedInteger
           | Got h s2 \<Rightarrow>
               (case read_int s2 of
                  Eof \<Rightarrow> Inl TruncatedHeader
                | Bad \<Rightarrow> Inl MalformedInteger
                | Got maxv s3 \<Rightarrow> Inr ((w, h, maxv), s3))))"

text \<open>
  Line 82: the product in \<open>long long\<close>. Where it leaves the range of \<open>long long\<close> the C
  standard leaves the result undefined; the wrap-around is what the compiled code does.
\<close>

definition nvals_of :: "int \<Rightarrow> int \<Rightarrow> int" where
  "nvals_of w h = wrap64 (wrap64 (w * h) * 3)"

text \<open>Lines 79 to 83: the checks of the header; the result is \<open>nvals\<close>.\<close>

definition check_header :: "int \<Rightarrow> int \<Rightarrow> int \<Rightarrow> error + int" where
  "check_header w h maxv =
     (if w \<le> 0 \<or> h \<le> 0 then Inl InvalidDimensions
      else if maxv \<le> 0 \<or> maxv > 65535 then Inl InvalidMaxValue
      else let nvals = nvals_of w h
           in if nvals \<le> 0 \<or> nvals > 200000000 then Inl ImageTooLarge else Inr nvals)"

text \<open>Lines 90 to 95: the loop that fills \<open>pix\<close>.\<close>

function read_pixels :: "nat \<Rightarrow> nat \<Rightarrow> int \<Rightarrow> int list \<Rightarrow> string \<Rightarrow> error + (int list \<times> string)" where
  "read_pixels i nvals maxv pix s =
     (if i < nvals then
        (case read_int s of
           Eof \<Rightarrow> Inl UnexpectedEndOfData
         | Bad \<Rightarrow> Inl MalformedInteger
         | Got v r \<Rightarrow>
             if v < 0 \<or> v > maxv then Inl PixelOutOfRange
             else read_pixels (i + 1) nvals maxv (pix[i := v]) r)
      else Inr (pix, s))"
  by pat_completeness auto
termination
  by (relation "measure (\<lambda>(i, nvals, maxv, pix, s). nvals - i)") auto

declare read_pixels.simps [simp del]

text \<open>
  Lines 67 to 96. Whether \<open>malloc\<close> returns a buffer is not decided by the program:
  \<open>malloc_ok n\<close> says whether a request of \<open>n\<close> bytes succeeds. The buffers come with
  unspecified content, zeros stand for it. An \<open>int\<close> has four bytes.
\<close>

definition load_image :: "(nat \<Rightarrow> bool) \<Rightarrow> string \<Rightarrow> error + image" where
  "load_image malloc_ok input =
     (case read_magic input of
        None \<Rightarrow> Inl HeaderUnreadable
      | Some (magic, s0) \<Rightarrow>
          if magic \<noteq> ''P3'' then Inl UnsupportedFormat
          else
            (case read_header s0 of
               Inl e \<Rightarrow> Inl e
             | Inr ((w, h, maxv), s1) \<Rightarrow>
                 (case check_header w h maxv of
                    Inl e \<Rightarrow> Inl e
                  | Inr nvals \<Rightarrow>
                      if \<not> (malloc_ok (nat nvals * 4) \<and> malloc_ok (nat nvals * 4)) then Inl OutOfMemory
                      else
                        (case read_pixels 0 (nat nvals) maxv (replicate (nat nvals) 0) s1 of
                           Inl e \<Rightarrow> Inl e
                         | Inr (pix, rest) \<Rightarrow>
                             Inr \<lparr>width = w, height = h, max_value = maxv, channels = pix\<rparr>))))"

section \<open>The serializer\<close>

text \<open>\<open>fprintf(out, "%d", v)\<close>.\<close>

definition digit_char :: "nat \<Rightarrow> char" where
  "digit_char d = char_of (48 + d)"

function show_nat :: "nat \<Rightarrow> string" where
  "show_nat n = (if n < 10 then [digit_char n] else show_nat (n div 10) @ [digit_char (n mod 10)])"
  by pat_completeness auto
termination
  by (relation "measure id") auto

declare show_nat.simps [simp del]

definition show_int :: "int \<Rightarrow> string" where
  "show_int v = (if v < 0 then CHR ''-'' # show_nat (nat (- v)) else show_nat (nat v))"

text \<open>The remainder of C, for \<open>count % per_line\<close>.\<close>

definition c_mod :: "int \<Rightarrow> int \<Rightarrow> int" where
  "c_mod a b = a - b * c_div a b"

text \<open>
  Lines 139 to 146: the loop over \<open>i\<close>; \<open>out\<close> is the content of the output file so far
  and \<open>count\<close> the counter of the source.
\<close>

function write_pixels :: "nat \<Rightarrow> nat \<Rightarrow> int list \<Rightarrow> int \<Rightarrow> string \<Rightarrow> string \<times> int" where
  "write_pixels i nvals outpix count out =
     (if i < nvals then
        (let out1 = out @ show_int (outpix ! i);
             count1 = count + 1;
             out2 = (if c_mod count1 15 = 0 then out1 @ [newline] else out1 @ '' '')
         in write_pixels (i + 1) nvals outpix count1 out2)
      else (out, count))"
  by pat_completeness auto
termination
  by (relation "measure (\<lambda>(i, nvals, outpix, count, out). nvals - i)") auto

declare write_pixels.simps [simp del]

text \<open>Lines 136 to 147: the whole output file.\<close>

definition write_image :: "int \<Rightarrow> int \<Rightarrow> int \<Rightarrow> nat \<Rightarrow> int list \<Rightarrow> string" where
  "write_image w h maxv nvals outpix =
     (let header = ''P3'' @ [newline] @ show_int w @ '' '' @ show_int h @ [newline] @
                   show_int maxv @ [newline];
          (out, count) = write_pixels 0 nvals outpix 0 header
      in if c_mod count 15 \<noteq> 0 then out @ [newline] else out)"

text \<open>An image in memory has \<open>nvals\<close> elements in its buffer.\<close>

definition serialize :: "image \<Rightarrow> string" where
  "serialize img =
     write_image (width img) (height img) (max_value img) (length (channels img)) (channels img)"

text \<open>
  \<open>main\<close> from the content of the input file to the content of the output file. The
  count of the arguments and the opening of the files are left out.
\<close>

definition main :: "(nat \<Rightarrow> bool) \<Rightarrow> string \<Rightarrow> error + string" where
  "main malloc_ok input =
     (case load_image malloc_ok input of
        Inl e \<Rightarrow> Inl e
      | Inr img \<Rightarrow> Inr (serialize (blur img)))"

section \<open>Auxiliary notions of the proofs\<close>

text \<open>The sample that the kernel offset \<open>(kx, ky)\<close> reads for the output value at \<open>(x, y, ch)\<close>.\<close>

definition px :: "int list \<Rightarrow> int \<Rightarrow> int \<Rightarrow> int \<Rightarrow> int \<Rightarrow> int \<Rightarrow> int \<Rightarrow> int \<Rightarrow> int" where
  "px pix w h x y ch ky kx =
     pix ! nat ((clamp (y + ky) 0 (h - 1) * w + clamp (x + kx) 0 (w - 1)) * 3 + ch)"

text \<open>The coordinates that the three loops of the convolution run through, in their order.\<close>

definition coords :: "int \<Rightarrow> int \<Rightarrow> ((int \<times> int) \<times> int) list" where
  "coords w h = List.product (List.product [0..h - 1] [0..w - 1]) [0..2]"

definition cidx :: "int \<Rightarrow> (int \<times> int) \<times> int \<Rightarrow> nat" where
  "cidx w k = nat (out_idx w (snd (fst k)) (fst (fst k)) (snd k))"

definition cval :: "(int \<Rightarrow> int \<Rightarrow> int \<Rightarrow> int) \<Rightarrow> (int \<times> int) \<times> int \<Rightarrow> int" where
  "cval val k = val (snd (fst k)) (fst (fst k)) (snd k)"


text \<open>
  \<open>k\<close> calls of \<open>read_int\<close> one after the other that all return an integer: the integers
  in the order of the stream, and the rest of the file.
\<close>

fun read_ints :: "nat \<Rightarrow> string \<Rightarrow> (int list \<times> string) option" where
  "read_ints 0 s = Some ([], s)"
| "read_ints (Suc k) s =
     (case read_int s of
        Got v r \<Rightarrow> (case read_ints k r of Some (vs, r') \<Rightarrow> Some (v # vs, r') | None \<Rightarrow> None)
      | _ \<Rightarrow> None)"

text \<open>The header that line 136 writes.\<close>

definition header_text :: "int \<Rightarrow> int \<Rightarrow> int \<Rightarrow> string" where
  "header_text w h maxv =
     ''P3'' @ [newline] @ show_int w @ '' '' @ show_int h @ [newline] @ show_int maxv @ [newline]"

text \<open>
  The text of the value \<open>v\<close> that is the token number \<open>k\<close>, counted from 0, with the byte
  that follows it: a newline after every 15th token, a space after every other one.
\<close>

definition token_text :: "nat \<times> int \<Rightarrow> string" where
  "token_text kv = show_int (snd kv) @ (if Suc (fst kv) mod 15 = 0 then [newline] else '' '')"

text \<open>
  The layout in the words of the specification, sections 4.5 and 6: the tokens separated
  by a single space, a newline after every 15th token, and a trailing newline if the
  last line is not full; \<open>k\<close> counts the tokens written so far.
\<close>

fun spec_tokens :: "string list \<Rightarrow> nat \<Rightarrow> string" where
  "spec_tokens [] k = (if k mod 15 \<noteq> 0 then [newline] else [])"
| "spec_tokens (t # ts) k =
     t @ (if Suc k mod 15 = 0 then [newline] else if ts = [] then [] else '' '') @
     spec_tokens ts (Suc k)"

definition spec_serialize :: "image \<Rightarrow> string" where
  "spec_serialize img =
     header_text (width img) (height img) (max_value img) @
     spec_tokens (map show_int (channels img)) 0"

text \<open>The values of the C type \<open>int\<close>.\<close>

definition c_int :: "int \<Rightarrow> bool" where
  "c_int v = (- (2 ^ 31) \<le> v \<and> v < 2 ^ 31)"

text \<open>
  A comment with the text \<open>cm\<close>: from \<open>#\<close> to the end of the line, the newline included.
\<close>

definition comment :: "string \<Rightarrow> string" where
  "comment cm = CHR ''#'' # cm @ [newline]"

text \<open>The prefix \<open>a\<close> of a stream ends within a comment: a \<open>#\<close> with no newline after it.\<close>

definition in_comment :: "string \<Rightarrow> bool" where
  "in_comment a = (CHR ''#'' \<in> set (takeWhile (\<lambda>c. c \<noteq> newline) (rev a)))"

text \<open>
  The place between the prefix \<open>a\<close> and the rest \<open>b\<close> of a stream lies between two tokens:
  it is not within a comment, and white space or an end of the stream is next to it.
\<close>

definition between_tokens :: "string \<Rightarrow> string \<Rightarrow> bool" where
  "between_tokens a b =
     (\<not> in_comment a \<and> (a = [] \<or> isspace (last a) \<or> b = [] \<or> isspace (hd b)))"

text \<open>
  Comments are put into a stream one after the other, each with its text \<open>cm\<close> at the
  place \<open>p\<close> of the stream as it is then; \<open>None\<close> when a place is not between two tokens
  or a text has a newline in it.
\<close>

fun insert_comments :: "(nat \<times> string) list \<Rightarrow> string \<Rightarrow> string option" where
  "insert_comments [] s = Some s"
| "insert_comments ((p, cm) # cs) s =
     (if p \<le> length s \<and> newline \<notin> set cm \<and> between_tokens (take p s) (drop p s)
      then insert_comments cs (take p s @ comment cm @ drop p s)
      else None)"

text \<open>The result of a parse without the rest of the file: the error or the values.\<close>

definition outcome :: "error + ('a \<times> string) \<Rightarrow> error + 'a" where
  "outcome r = (case r of Inl e \<Rightarrow> Inl e | Inr (x, rest) \<Rightarrow> Inr x)"

text \<open>
  For the proofs: two streams that are equal or differ by one comment between two tokens,
  two results of \<open>read_int\<close> that agree up to such a difference of the rest, the digits of
  \<open>%d\<close> after the sign, and two streams on which every parse has the same result.
\<close>

definition sim :: "string \<Rightarrow> string \<Rightarrow> bool" where
  "sim s s' =
     (s' = s \<or>
      (\<exists>a b cm. s = a @ b \<and> s' = a @ comment cm @ b \<and> newline \<notin> set cm \<and> between_tokens a b))"

fun same_read :: "read_result \<Rightarrow> read_result \<Rightarrow> bool" where
  "same_read Eof Eof = True"
| "same_read Bad Bad = True"
| "same_read (Got v r) (Got v' r') = (v = v' \<and> sim r r')"
| "same_read _ _ = False"

definition scan_digits :: "bool \<Rightarrow> string \<Rightarrow> (int \<times> string) option" where
  "scan_digits neg s1 =
     (let ds = takeWhile isdigit s1
      in if ds = [] then None
         else Some (store_int (if neg then - decimal ds else decimal ds), dropWhile isdigit s1))"

definition same_parse :: "string \<Rightarrow> string \<Rightarrow> bool" where
  "same_parse s s' =
     (outcome (read_header s') = outcome (read_header s) \<and>
      (\<forall>n maxv pix. outcome (read_pixels 0 n maxv pix s') =
                     outcome (read_pixels 0 n maxv pix s)) \<and>
      (\<forall>k. map_option fst (read_ints k s') = map_option fst (read_ints k s)) \<and>
      (\<forall>malloc_ok ws. list_all isspace ws \<longrightarrow>
         load_image malloc_ok (ws @ ''P3'' @ s') = load_image malloc_ok (ws @ ''P3'' @ s)))"

text \<open>The values of the C type \<open>long long\<close>.\<close>

definition fits_long_long :: "int \<Rightarrow> bool" where
  "fits_long_long v = (- (2 ^ 63) \<le> v \<and> v \<le> 2 ^ 63 - 1)"

section \<open>The convolution: proofs\<close>

lemma fold_add: "fold (\<lambda>x acc. acc + f x) xs (a::int) = a + (\<Sum>x\<leftarrow>xs. f x)"
  by (induction xs arbitrary: a) simp_all

lemma sum_list_upto: "(\<Sum>x\<leftarrow>[a..b]. f x) = (\<Sum>x\<in>{a..b}. (f x :: int))"
  by (simp add: sum_list_distinct_conv_sum_set)

lemma accumulate_sum:
  "accumulate pix w h x y ch =
     (\<Sum>ky\<in>{-2..2}. \<Sum>kx\<in>{-2..2}. K ! nat (ky + 2) ! nat (kx + 2) * px pix w h x y ch ky kx)"
  unfolding accumulate_def Let_def px_def fold_add sum_list_upto by simp

lemma sum5: "sum f {-2..2::int} = f (-2) + f (-1) + f 0 + f 1 + (f 2 :: int)"
proof -
  have "{-2..2::int} = {-2, -1, 0, 1, 2}" by auto
  then show ?thesis by simp
qed

lemma K_sum: "(\<Sum>ky\<in>{-2..2}. \<Sum>kx\<in>{-2..2}. K ! nat (ky + 2) ! nat (kx + 2)) = KSUM"
  by (simp add: sum5 K_def KSUM_def)

lemma round_div_nonneg: "0 \<le> acc \<Longrightarrow> round_div acc = (acc + 40) div 81"
  by (simp add: round_div_def c_div_def KSUM_def sgn_if)

lemma clamp_range: "lo \<le> hi \<Longrightarrow> lo \<le> clamp v lo hi \<and> clamp v lo hi \<le> hi"
  by (simp add: clamp_def)

lemma index_bounds:
  assumes "0 \<le> sy" "sy < h" "0 \<le> sx" "sx < w" "0 \<le> ch" "ch < 3"
  shows "0 \<le> (sy * w + sx) * 3 + ch \<and> (sy * w + sx) * 3 + ch < w * h * (3::int)"
proof -
  have w: "0 < w" using assms by linarith
  have "sy * w \<le> (h - 1) * w"
    using assms w by (intro mult_right_mono) auto
  then have "sy * w + sx \<le> h * w - 1"
    using assms by (simp add: algebra_simps)
  moreover have "0 \<le> sy * w" using assms w by simp
  ultimately show ?thesis using assms by (simp add: algebra_simps)
qed

lemma mod_mult_add: "0 \<le> c \<Longrightarrow> c < n \<Longrightarrow> (a * n + c) mod n = (c::int)"
  by simp

lemma index_inj:
  assumes r: "0 \<le> x" "x < w" "0 \<le> c" "c < 3"
    and r': "0 \<le> x'" "x' < w" "0 \<le> c'" "c' < 3"
    and eq: "(y * w + x) * 3 + c = (y' * w + x') * 3 + (c'::int)"
  shows "y = y' \<and> x = x' \<and> c = c'"
proof -
  have "((y * w + x) * 3 + c) mod 3 = c" using r by (intro mod_mult_add)
  moreover have "((y' * w + x') * 3 + c') mod 3 = c'" using r' by (intro mod_mult_add)
  ultimately have c: "c = c'" using eq by simp
  then have e2: "y * w + x = y' * w + x'" using eq by simp
  have "(y * w + x) mod w = x" using r by (intro mod_mult_add)
  moreover have "(y' * w + x') mod w = x'" using r' by (intro mod_mult_add)
  ultimately have x: "x = x'" using e2 by simp
  then have "y * w = y' * w" using e2 by simp
  then have "y = y'" using r by simp
  with c x show ?thesis by simp
qed

lemma px_range:
  assumes "0 < w" "0 < h" "0 \<le> ch" "ch < 3"
    and len: "int (length pix) = w * h * 3"
    and rng: "list_all (\<lambda>v. 0 \<le> v \<and> v \<le> m) pix"
  shows "0 \<le> px pix w h x y ch ky kx \<and> px pix w h x y ch ky kx \<le> m"
proof -
  let ?sy = "clamp (y + ky) 0 (h - 1)" and ?sx = "clamp (x + kx) 0 (w - 1)"
  have "0 \<le> ?sy \<and> ?sy < h" "0 \<le> ?sx \<and> ?sx < w"
    using assms by (simp_all add: clamp_def)
  then have "0 \<le> (?sy * w + ?sx) * 3 + ch \<and> (?sy * w + ?sx) * 3 + ch < w * h * 3"
    using assms by (intro index_bounds) auto
  then have "nat ((?sy * w + ?sx) * 3 + ch) < length pix"
    using len by linarith
  then show ?thesis
    using rng by (simp add: px_def list_all_length)
qed

lemma fold_product:
  "fold (\<lambda>a. fold (f a) bs) as = fold (\<lambda>(a, b). f a b) (List.product as bs)"
proof (induction as)
  case Nil
  then show ?case by simp
next
  case (Cons a as)
  have "fold (\<lambda>(a, b). f a b) (map (Pair a) bs) = fold (f a) bs"
    by (simp add: fold_map comp_def)
  with Cons show ?case by (simp add: comp_def)
qed

lemma length_fold_update: "length (fold (\<lambda>k out. out[f k := g k]) ks out) = length out"
  by (induction ks arbitrary: out) simp_all

lemma nth_fold_update_other:
  "i \<notin> f ` set ks \<Longrightarrow> fold (\<lambda>k out. out[f k := g k]) ks out ! i = out ! i"
  by (induction ks arbitrary: out) auto

lemma nth_fold_update:
  "distinct (map f ks) \<Longrightarrow> k \<in> set ks \<Longrightarrow> f k < length out \<Longrightarrow>
     fold (\<lambda>k out. out[f k := g k]) ks out ! f k = g k"
proof (induction ks arbitrary: out)
  case Nil
  then show ?case by simp
next
  case (Cons a ks)
  show ?case
  proof (cases "k = a")
    case True
    then have "f k \<notin> f ` set ks" using Cons.prems by auto
    then show ?thesis using True Cons.prems by (simp add: nth_fold_update_other)
  next
    case False
    then show ?thesis using Cons by simp
  qed
qed

lemma blur_loops_flat:
  "blur_loops val w h outpix = fold (\<lambda>k out. out[cidx w k := cval val k]) (coords w h) outpix"
proof -
  have "blur_loops val w h =
      fold (\<lambda>y. fold (\<lambda>x. fold (\<lambda>ch out. out[nat (out_idx w x y ch) := val x y ch]) [0..2]) [0..w - 1]) [0..h - 1]"
    by (simp add: blur_loops_def fun_eq_iff)
  also have "\<dots> = fold (\<lambda>(y, x). fold (\<lambda>ch out. out[nat (out_idx w x y ch) := val x y ch]) [0..2])
       (List.product [0..h - 1] [0..w - 1])"
    by (rule fold_product)
  also have "\<dots> = fold (\<lambda>p. fold (\<lambda>ch out. out[cidx w (p, ch) := cval val (p, ch)]) [0..2])
       (List.product [0..h - 1] [0..w - 1])"
    by (intro arg_cong2 [of _ _ _ _ fold] ext) (auto simp: cidx_def cval_def)
  also have "\<dots> = fold (\<lambda>(p, ch). \<lambda>out. out[cidx w (p, ch) := cval val (p, ch)]) (coords w h)"
    unfolding coords_def by (rule fold_product)
  also have "\<dots> = fold (\<lambda>k out. out[cidx w k := cval val k]) (coords w h)"
    by (intro arg_cong2 [of _ _ _ _ fold] ext) auto
  finally show ?thesis by simp
qed

lemma out_idx_nonneg: "0 \<le> y \<Longrightarrow> 0 \<le> x \<Longrightarrow> 0 < w \<Longrightarrow> 0 \<le> ch \<Longrightarrow> 0 \<le> out_idx w x y ch"
  by (simp add: out_idx_def)

lemma cidx_inj:
  assumes a: "0 \<le> y" "0 \<le> x" "x < w" "0 \<le> ch" "ch \<le> 2"
    and b: "0 \<le> y'" "0 \<le> x'" "x' < w" "0 \<le> ch'" "ch' \<le> 2"
    and eq: "nat (out_idx w x y ch) = nat (out_idx w x' y' ch')"
  shows "y = y' \<and> x = x' \<and> ch = ch'"
proof -
  have "0 \<le> out_idx w x y ch" "0 \<le> out_idx w x' y' ch'"
    using a b by (simp_all add: out_idx_nonneg)
  with eq have "out_idx w x y ch = out_idx w x' y' ch'" by simp
  then show ?thesis
    unfolding out_idx_def using a b by (intro index_inj) auto
qed

lemma coords_distinct: "distinct (map (cidx w) (coords w h))"
proof -
  have "inj_on (cidx w) (set (coords w h))"
    by (rule inj_onI) (auto simp: coords_def cidx_def dest: cidx_inj)
  moreover have "distinct (coords w h)"
    by (simp add: coords_def distinct_product)
  ultimately show ?thesis by (simp add: distinct_map)
qed

lemma length_blur_loops: "length (blur_loops val w h outpix) = length outpix"
  by (simp add: blur_loops_flat length_fold_update)

lemma blur_loops_nth:
  assumes "0 \<le> x" "x < w" "0 \<le> y" "y < h" "0 \<le> ch" "ch < 3"
    and len: "int (length outpix) = w * h * 3"
  shows "blur_loops val w h outpix ! nat (out_idx w x y ch) = val x y ch"
proof -
  have mem: "((y, x), ch) \<in> set (coords w h)"
    using assms by (simp add: coords_def)
  have "0 \<le> out_idx w x y ch \<and> out_idx w x y ch < w * h * 3"
    unfolding out_idx_def using assms by (intro index_bounds) auto
  then have "cidx w ((y, x), ch) < length outpix"
    using len by (simp add: nat_less_iff cidx_def)
  from nth_fold_update [of "cidx w" "coords w h" "((y, x), ch)" outpix "cval val",
      OF coords_distinct mem this]
  show ?thesis by (simp add: blur_loops_flat cidx_def cval_def)
qed

lemma div_less_bound:
  assumes "0 < w" "j < w * (h::int)"
  shows "j div w < h"
proof -
  have "w * (j div w) + j mod w = j" by simp
  moreover have "0 \<le> j mod w" using assms by simp
  ultimately have "w * (j div w) < w * h" using assms by linarith
  then show ?thesis using assms by (simp add: mult_less_cancel_left_pos)
qed

lemma index_decompose:
  assumes "0 < w" "0 \<le> i" "i < w * h * 3"
  shows "i = out_idx w ((i div 3) mod w) ((i div 3) div w) (i mod 3) \<and>
         0 \<le> (i div 3) mod w \<and> (i div 3) mod w < w \<and>
         0 \<le> (i div 3) div w \<and> (i div 3) div w < h \<and> 0 \<le> i mod 3 \<and> i mod 3 < 3"
proof -
  have "i < 3 * (w * h)" using assms by simp
  then have "i div 3 < w * h" by (intro div_less_bound) auto
  then have "(i div 3) div w < h"
    using assms by (intro div_less_bound) auto
  moreover have "0 \<le> (i div 3) div w"
    using assms by (simp add: pos_imp_zdiv_nonneg_iff)
  moreover have "i = out_idx w ((i div 3) mod w) ((i div 3) div w) (i mod 3)"
    by (simp add: out_idx_def)
  ultimately show ?thesis using assms by simp
qed

lemma blur_loops_pointwise:
  assumes w: "0 < w" and len: "int (length outpix) = w * h * 3"
    and i: "i < length outpix"
  shows "\<exists>x y ch. 0 \<le> x \<and> x < w \<and> 0 \<le> y \<and> y < h \<and> 0 \<le> ch \<and> ch < 3 \<and>
           i = nat (out_idx w x y ch) \<and> blur_loops val w h outpix ! i = val x y ch"
proof -
  let ?i = "int i"
  let ?x = "(?i div 3) mod w" and ?y = "(?i div 3) div w" and ?c = "?i mod 3"
  have "0 \<le> ?i" "?i < w * h * 3" using i len by simp_all
  from index_decompose [OF w this]
  have d: "?i = out_idx w ?x ?y ?c" "0 \<le> ?x" "?x < w" "0 \<le> ?y" "?y < h" "0 \<le> ?c" "?c < 3"
    by blast+
  have "blur_loops val w h outpix ! nat (out_idx w ?x ?y ?c) = val ?x ?y ?c"
    using d(2-7) len by (intro blur_loops_nth)
  moreover have "i = nat (out_idx w ?x ?y ?c)" using d(1) by linarith
  ultimately show ?thesis using d(2-7) by metis
qed

lemma blur_loops_cong:
  assumes w: "0 < w" and len: "int (length outpix) = w * h * 3"
    and eq: "\<And>x y ch. 0 \<le> x \<Longrightarrow> x < w \<Longrightarrow> 0 \<le> y \<Longrightarrow> y < h \<Longrightarrow> 0 \<le> ch \<Longrightarrow> ch < 3 \<Longrightarrow>
               val x y ch = val' x y ch"
  shows "blur_loops val w h outpix = blur_loops val' w h outpix"
proof (rule nth_equalityI)
  show "length (blur_loops val w h outpix) = length (blur_loops val' w h outpix)"
    by (simp add: length_blur_loops)
next
  fix i assume "i < length (blur_loops val w h outpix)"
  then have i: "i < length outpix" by (simp add: length_blur_loops)
  from blur_loops_pointwise [OF w len i, of val]
  obtain x y ch where r: "0 \<le> x" "x < w" "0 \<le> y" "y < h" "0 \<le> ch" "ch < 3"
    and ix: "i = nat (out_idx w x y ch)" and v: "blur_loops val w h outpix ! i = val x y ch"
    by blast
  have "blur_loops val' w h outpix ! nat (out_idx w x y ch) = val' x y ch"
    using r len by (intro blur_loops_nth)
  then show "blur_loops val w h outpix ! i = blur_loops val' w h outpix ! i"
    using v ix eq [OF r] by simp
qed

lemma blur_loops_all:
  assumes w: "0 < w" and len: "int (length outpix) = w * h * 3"
    and P: "\<And>x y ch. 0 \<le> x \<Longrightarrow> x < w \<Longrightarrow> 0 \<le> y \<Longrightarrow> y < h \<Longrightarrow> 0 \<le> ch \<Longrightarrow> ch < 3 \<Longrightarrow>
               P (val x y ch)"
  shows "list_all P (blur_loops val w h outpix)"
  unfolding list_all_length
proof (intro allI impI)
  fix i assume "i < length (blur_loops val w h outpix)"
  then have i: "i < length outpix" by (simp add: length_blur_loops)
  from blur_loops_pointwise [OF w len i, of val] P
  show "P (blur_loops val w h outpix ! i)" by metis
qed

lemma blur_loops_init:
  assumes "0 < w" "int (length out1) = w * h * 3" "length out2 = length out1"
  shows "blur_loops val w h out1 = blur_loops val w h out2"
proof (rule nth_equalityI)
  show "length (blur_loops val w h out1) = length (blur_loops val w h out2)"
    using assms by (simp add: length_blur_loops)
next
  fix i assume "i < length (blur_loops val w h out1)"
  then have i: "i < length out1" by (simp add: length_blur_loops)
  from blur_loops_pointwise [OF assms(1,2) i, of val]
  obtain x y ch where r: "0 \<le> x" "x < w" "0 \<le> y" "y < h" "0 \<le> ch" "ch < 3"
    and ix: "i = nat (out_idx w x y ch)" and v: "blur_loops val w h out1 ! i = val x y ch"
    by blast
  have "blur_loops val w h out2 ! nat (out_idx w x y ch) = val x y ch"
    using r assms by (intro blur_loops_nth) auto
  then show "blur_loops val w h out1 ! i = blur_loops val w h out2 ! i"
    using v ix by simp
qed

lemma kernel_nonneg:
  assumes "ky \<in> {-2..2}" "kx \<in> {-2..2}"
  shows "0 \<le> K ! nat (ky + 2) ! nat (kx + 2)"
proof -
  have "ky = -2 \<or> ky = -1 \<or> ky = 0 \<or> ky = 1 \<or> ky = 2" using assms(1) by auto
  moreover have "kx = -2 \<or> kx = -1 \<or> kx = 0 \<or> kx = 1 \<or> kx = 2" using assms(2) by auto
  ultimately show ?thesis by (auto simp: K_def)
qed

lemma accumulate_bounds:
  assumes "0 < w" "0 < h" "0 \<le> ch" "ch < 3"
    and len: "int (length pix) = w * h * 3"
    and rng: "list_all (\<lambda>v. 0 \<le> v \<and> v \<le> m) pix"
  shows "0 \<le> accumulate pix w h x y ch \<and> accumulate pix w h x y ch \<le> 81 * m"
proof -
  note b = px_range [OF assms, of x y]
  have lo: "0 \<le> accumulate pix w h x y ch"
    unfolding accumulate_sum using b kernel_nonneg by (intro sum_nonneg mult_nonneg_nonneg) auto
  have "accumulate pix w h x y ch \<le>
      (\<Sum>ky\<in>{-2..2}. \<Sum>kx\<in>{-2..2}. K ! nat (ky + 2) ! nat (kx + 2) * m)"
    unfolding accumulate_sum using b kernel_nonneg by (intro sum_mono mult_left_mono) auto
  also have "\<dots> = (\<Sum>ky\<in>{-2..2}. \<Sum>kx\<in>{-2..2}. K ! nat (ky + 2) ! nat (kx + 2)) * m"
    by (simp add: sum_distrib_right)
  also have "\<dots> = 81 * m" using K_sum by (simp add: KSUM_def)
  finally show ?thesis using lo by simp
qed

lemma clamp_eq_clamp_to: "lo \<le> hi \<Longrightarrow> clamp v lo hi = clamp_to v lo hi"
  by (simp add: clamp_def clamp_to_def)

lemma length_blur: "length (channels (blur img)) = length (channels img)"
  by (simp add: blur_def length_blur_loops)

lemma blur_nth:
  assumes "0 \<le> x" "x < width img" "0 \<le> y" "y < height img" "0 \<le> c" "c < 3"
    and len: "int (length (channels img)) = width img * height img * 3"
  shows "channels (blur img) ! nat ((y * width img + x) * 3 + c) =
         blur_value (channels img) (width img) (height img) (max_value img) x y c"
proof -
  have "int (length (replicate (length (channels img)) (0::int))) = width img * height img * 3"
    using len by simp
  from blur_loops_nth [OF assms(1-6) this] show ?thesis
    by (simp add: blur_def out_idx_def)
qed

lemma weights_sum: "(\<Sum>ky\<in>{-2..2}. \<Sum>kx\<in>{-2..2}. weight kx ky) = 81"
  using K_sum by (simp add: weight_def KSUM_def)

text \<open>
  C1. For a valid image, the output value of the convolution at pixel \<open>(x, y)\<close> and
  channel \<open>c\<close>, at index \<open>(y * width + x) * 3 + c\<close> of the output buffer, is the reference
  value: the sum over the offsets \<open>(kx, ky)\<close> in \<open>[-2,2]\<times>[-2,2]\<close> of the weight times the
  input at the clamped coordinates, then \<open>(accumulator + divisor div 2) div divisor\<close> with
  the divisor 81, which is the sum of the weights, then clamped to \<open>[0, max_value]\<close>.
\<close>

theorem blur_matches_reference:
  assumes "valid_image img" "0 \<le> x" "x < width img" "0 \<le> y" "y < height img" "0 \<le> c" "c < 3"
  shows "channels (blur img) ! nat ((y * width img + x) * 3 + c) = reference_pixel img x y c \<and>
         (\<Sum>ky\<in>{-2..2}. \<Sum>kx\<in>{-2..2}. weight kx ky) = 81 \<and>
         int (length (channels (blur img))) = width img * height img * 3"
proof -
  let ?w = "width img" and ?h = "height img" and ?m = "max_value img" and ?pix = "channels img"
  have v: "0 < ?w" "0 < ?h" "0 \<le> ?m" "int (length ?pix) = ?w * ?h * 3"
    "list_all (\<lambda>v. 0 \<le> v \<and> v \<le> ?m) ?pix"
    using assms(1) by (simp_all add: valid_image_def)
  have acc: "accumulate ?pix ?w ?h x y c =
      (\<Sum>ky\<in>{-2..2}. \<Sum>kx\<in>{-2..2}. weight kx ky *
         input_at img (clamp_to (y + ky) 0 (?h - 1)) (clamp_to (x + kx) 0 (?w - 1)) c)"
    using v(1,2)
    by (simp add: accumulate_sum px_def weight_def input_at_def clamp_eq_clamp_to)
  have nonneg: "0 \<le> accumulate ?pix ?w ?h x y c"
    using accumulate_bounds [OF v(1,2) assms(6,7) v(4,5)] by blast
  have "blur_value ?pix ?w ?h ?m x y c = reference_pixel img x y c"
    unfolding blur_value_def reference_pixel_def Let_def acc [symmetric]
    using nonneg v(3) by (simp add: round_div_nonneg clamp_eq_clamp_to)
  then show ?thesis
    using blur_nth [OF assms(2-7) v(4)] weights_sum v(4) by (simp add: length_blur)
qed

theorem blur_matches_reference_witness:
  "valid_image \<lparr>width = 1, height = 1, max_value = 255, channels = [7, 8, 9]\<rparr> \<and>
   channels (blur \<lparr>width = 1, height = 1, max_value = 255, channels = [7, 8, 9]\<rparr>) ! 1 =
     reference_pixel \<lparr>width = 1, height = 1, max_value = 255, channels = [7, 8, 9]\<rparr> 0 0 1"
proof -
  have v: "valid_image \<lparr>width = 1, height = 1, max_value = 255, channels = [7, 8, 9]\<rparr>"
    by (simp add: valid_image_def)
  from blur_matches_reference [OF v, of 0 0 1] v show ?thesis by simp
qed

lemma blur_value_range:
  "0 \<le> m \<Longrightarrow> 0 \<le> blur_value pix w h m x y c \<and> blur_value pix w h m x y c \<le> m"
  by (simp add: blur_value_def clamp_def Let_def)

text \<open>
  The range of the output does not depend on the values of the input: the clamp of line
  125 alone gives it.
\<close>

lemma blur_channels_range:
  assumes "0 < width img" "0 \<le> max_value img"
    and "int (length (channels img)) = width img * height img * 3"
  shows "list_all (\<lambda>v. 0 \<le> v \<and> v \<le> max_value img) (channels (blur img))"
proof -
  have "int (length (replicate (length (channels img)) (0::int))) = width img * height img * 3"
    using assms(3) by simp
  with assms(1,2) show ?thesis
    unfolding blur_def
    by (simp, intro blur_loops_all) (simp_all add: blur_value_range)
qed

text \<open>
  C2. For a valid input image, every channel value of the output buffer of the
  convolution lies in \<open>[0, max_value]\<close>.
\<close>

theorem blur_output_in_range:
  assumes "valid_image img"
  shows "list_all (\<lambda>v. 0 \<le> v \<and> v \<le> max_value img) (channels (blur img))"
proof -
  have "0 < width img" "0 \<le> max_value img"
    "int (length (channels img)) = width img * height img * 3"
    using assms by (simp_all add: valid_image_def)
  then show ?thesis by (rule blur_channels_range)
qed

theorem blur_output_in_range_witness:
  "valid_image \<lparr>width = 1, height = 1, max_value = 255, channels = [0, 255, 9]\<rparr> \<and>
   list_all (\<lambda>v. 0 \<le> v \<and> v \<le> 255)
     (channels (blur \<lparr>width = 1, height = 1, max_value = 255, channels = [0, 255, 9]\<rparr>))"
proof -
  have v: "valid_image \<lparr>width = 1, height = 1, max_value = 255, channels = [0, 255, 9]\<rparr>"
    by (simp add: valid_image_def)
  from blur_output_in_range [OF v] v show ?thesis by simp
qed

lemma blur_valid:
  assumes "valid_image img"
  shows "valid_image (blur img)"
proof -
  have a: "0 < width img" "0 < height img" "1 \<le> max_value img" "max_value img \<le> 65535"
    "int (length (channels img)) = width img * height img * 3"
    using assms by (simp_all add: valid_image_def)
  then have "list_all (\<lambda>v. 0 \<le> v \<and> v \<le> max_value img) (channels (blur img))"
    by (intro blur_channels_range) simp_all
  moreover have "width (blur img) = width img" "height (blur img) = height img"
    "max_value (blur img) = max_value img"
    by (simp_all add: blur_def)
  ultimately show ?thesis using a by (simp add: valid_image_def length_blur)
qed

lemma unclamped_range:
  assumes "0 < w" "0 < h" "0 \<le> ch" "ch < 3"
    and len: "int (length pix) = w * h * 3"
    and rng: "list_all (\<lambda>v. 0 \<le> v \<and> v \<le> m) pix"
  shows "0 \<le> blur_value_unclamped pix w h x y ch \<and> blur_value_unclamped pix w h x y ch \<le> m"
proof -
  from accumulate_bounds [OF assms, of x y]
  have b: "0 \<le> accumulate pix w h x y ch" "accumulate pix w h x y ch \<le> 81 * m" by blast+
  then have "0 \<le> (accumulate pix w h x y ch + 40) div 81 \<and>
      (accumulate pix w h x y ch + 40) div 81 \<le> m" by linarith
  then show ?thesis
    using b(1) by (simp add: blur_value_unclamped_def round_div_nonneg)
qed

text \<open>
  C10. For a valid input image the clamp after the division changes nothing: in every
  output value the accumulator is not negative and at most \<open>81 * max_value\<close>, the rounded
  quotient \<open>(accumulator + 40) div 81\<close> lies in \<open>[0, max_value]\<close>, and the convolution
  without the final clamp gives the same output buffer.
\<close>

theorem final_clamp_is_noop:
  assumes "valid_image img"
  shows "blur_unclamped img = blur img \<and>
         (\<forall>x y ch. 0 \<le> ch \<and> ch < 3 \<longrightarrow>
            (let acc = accumulate (channels img) (width img) (height img) x y ch
             in 0 \<le> acc \<and> acc \<le> 81 * max_value img \<and>
                round_div acc = (acc + 40) div 81 \<and>
                0 \<le> (acc + 40) div 81 \<and> (acc + 40) div 81 \<le> max_value img))"
proof -
  let ?w = "width img" and ?h = "height img" and ?m = "max_value img" and ?pix = "channels img"
  have v: "0 < ?w" "0 < ?h" "0 \<le> ?m" "int (length ?pix) = ?w * ?h * 3"
    "list_all (\<lambda>v. 0 \<le> v \<and> v \<le> ?m) ?pix"
    using assms(1) by (simp_all add: valid_image_def)
  have len: "int (length (replicate (length ?pix) (0::int))) = ?w * ?h * 3"
    using v by simp
  have "blur_loops (blur_value_unclamped ?pix ?w ?h) ?w ?h (replicate (length ?pix) 0) =
        blur_loops (blur_value ?pix ?w ?h ?m) ?w ?h (replicate (length ?pix) 0)"
  proof (rule blur_loops_cong [OF v(1) len])
    fix x y ch :: int
    assume c: "0 \<le> ch" "ch < 3"
    from unclamped_range [OF v(1,2) c v(4,5), of x y]
    show "blur_value_unclamped ?pix ?w ?h x y ch = blur_value ?pix ?w ?h ?m x y ch"
      by (simp add: blur_value_def blur_value_unclamped_def clamp_def)
  qed
  then have eq: "blur_unclamped img = blur img"
    by (simp add: blur_def blur_unclamped_def)
  have "0 \<le> accumulate ?pix ?w ?h x y ch \<and> accumulate ?pix ?w ?h x y ch \<le> 81 * ?m \<and>
        round_div (accumulate ?pix ?w ?h x y ch) = (accumulate ?pix ?w ?h x y ch + 40) div 81 \<and>
        0 \<le> (accumulate ?pix ?w ?h x y ch + 40) div 81 \<and>
        (accumulate ?pix ?w ?h x y ch + 40) div 81 \<le> ?m"
    if c: "0 \<le> ch" "ch < 3" for x y ch
  proof -
    from accumulate_bounds [OF v(1,2) c v(4,5), of x y]
    have b: "0 \<le> accumulate ?pix ?w ?h x y ch" "accumulate ?pix ?w ?h x y ch \<le> 81 * ?m"
      by blast+
    then have "0 \<le> (accumulate ?pix ?w ?h x y ch + 40) div 81 \<and>
        (accumulate ?pix ?w ?h x y ch + 40) div 81 \<le> ?m" by linarith
    with b show ?thesis by (simp add: round_div_nonneg)
  qed
  with eq show ?thesis by (simp add: Let_def)
qed

theorem final_clamp_is_noop_witness:
  "valid_image \<lparr>width = 1, height = 1, max_value = 255, channels = [0, 255, 9]\<rparr> \<and>
   blur_unclamped \<lparr>width = 1, height = 1, max_value = 255, channels = [0, 255, 9]\<rparr> =
   blur \<lparr>width = 1, height = 1, max_value = 255, channels = [0, 255, 9]\<rparr>"
proof -
  have v: "valid_image \<lparr>width = 1, height = 1, max_value = 255, channels = [0, 255, 9]\<rparr>"
    by (simp add: valid_image_def)
  from final_clamp_is_noop [OF v] v show ?thesis by simp
qed

lemma px_uniform:
  assumes "0 < w" "0 < h" "0 \<le> ch" "ch < 3"
    and len: "int (length pix) = w * h * 3"
    and rng: "list_all (\<lambda>v. v = V) pix"
  shows "px pix w h x y ch ky kx = V"
proof -
  let ?sy = "clamp (y + ky) 0 (h - 1)" and ?sx = "clamp (x + kx) 0 (w - 1)"
  have "0 \<le> ?sy \<and> ?sy < h" "0 \<le> ?sx \<and> ?sx < w"
    using assms by (simp_all add: clamp_def)
  then have "0 \<le> (?sy * w + ?sx) * 3 + ch \<and> (?sy * w + ?sx) * 3 + ch < w * h * 3"
    using assms by (intro index_bounds) auto
  then have "nat ((?sy * w + ?sx) * 3 + ch) < length pix"
    using len by linarith
  then show ?thesis
    using rng by (simp add: px_def list_all_length)
qed

lemma accumulate_uniform:
  assumes "0 < w" "0 < h" "0 \<le> ch" "ch < 3"
    and len: "int (length pix) = w * h * 3"
    and rng: "list_all (\<lambda>v. v = V) pix"
  shows "accumulate pix w h x y ch = 81 * V"
  unfolding accumulate_sum sum5 px_uniform [OF assms] by (simp add: K_def)

text \<open>
  C3. For a uniform valid image, every channel value equal to \<open>V\<close>, the output buffer of
  the convolution is the input buffer: every output channel value is \<open>V\<close>.
\<close>

theorem uniform_image_fixed:
  assumes "valid_image img" "list_all (\<lambda>v. v = V) (channels img)"
  shows "channels (blur img) = channels img \<and> list_all (\<lambda>v. v = V) (channels (blur img))"
proof -
  let ?w = "width img" and ?h = "height img" and ?m = "max_value img" and ?pix = "channels img"
  have v: "0 < ?w" "0 < ?h" "0 \<le> ?m" "int (length ?pix) = ?w * ?h * 3"
    "list_all (\<lambda>v. 0 \<le> v \<and> v \<le> ?m) ?pix"
    using assms(1) by (simp_all add: valid_image_def)
  have "?pix \<noteq> []" using v by auto
  then have "V \<in> set ?pix" using assms(2) by (cases ?pix) auto
  then have V: "0 \<le> V" "V \<le> ?m" using v(5) by (auto simp: list_all_iff)
  have len: "int (length (replicate (length ?pix) (0::int))) = ?w * ?h * 3"
    using v by simp
  have all: "list_all (\<lambda>v. v = V) (channels (blur img))"
    unfolding blur_def using v(1) len
  proof (simp, intro blur_loops_all)
    fix x y ch :: int
    assume c: "0 \<le> ch" "ch < 3"
    from accumulate_uniform [OF v(1,2) c v(4) assms(2), of x y] V
    show "blur_value ?pix ?w ?h ?m x y ch = V"
      by (simp add: blur_value_def round_div_nonneg clamp_def)
  qed simp_all
  have "length (channels (blur img)) = length ?pix"
    by (simp add: length_blur)
  then have "channels (blur img) = ?pix"
    using all assms(2) by (intro nth_equalityI) (simp_all add: list_all_length)
  with all show ?thesis by simp
qed

theorem uniform_image_fixed_witness:
  "valid_image \<lparr>width = 1, height = 2, max_value = 255, channels = [9, 9, 9, 9, 9, 9]\<rparr> \<and>
   list_all (\<lambda>v. v = 9) [9, 9, 9, 9, 9, 9 :: int] \<and>
   channels (blur \<lparr>width = 1, height = 2, max_value = 255, channels = [9, 9, 9, 9, 9, 9]\<rparr>) =
     [9, 9, 9, 9, 9, 9]"
proof -
  have v: "valid_image \<lparr>width = 1, height = 2, max_value = 255, channels = [9, 9, 9, 9, 9, 9]\<rparr>"
    by (simp add: valid_image_def)
  from uniform_image_fixed [OF v, of 9] v show ?thesis by simp
qed

section \<open>The header and the pixel loader: proofs\<close>

lemma wrap32_range: "- (2 ^ 31) \<le> wrap32 v \<and> wrap32 v < 2 ^ 31"
  by (simp add: wrap32_def)

lemma wrap32_id: "- (2 ^ 31) \<le> v \<Longrightarrow> v < 2 ^ 31 \<Longrightarrow> wrap32 v = v"
  by (simp add: wrap32_def)

lemma wrap64_id: "- (2 ^ 63) \<le> v \<Longrightarrow> v < 2 ^ 63 \<Longrightarrow> wrap64 v = v"
  by (simp add: wrap64_def)

lemma wrap64_high: "2 ^ 63 \<le> v \<Longrightarrow> v < 2 ^ 64 \<Longrightarrow> wrap64 v = v - 2 ^ 64"
proof -
  assume a: "2 ^ 63 \<le> v" "v < 2 ^ 64"
  have "(v + 2 ^ 63) mod 2 ^ 64 = v + 2 ^ 63 - 2 ^ 64"
    using a by (simp add: mod_pos_geq)
  then show ?thesis by (simp add: wrap64_def)
qed

lemma scan_int_range: "scan_int s = Some (v, r) \<Longrightarrow> - (2 ^ 31) \<le> v \<and> v < 2 ^ 31"
  using wrap32_range
  by (auto simp: scan_int_def store_int_def Let_def split: prod.splits if_splits)

lemma read_int_range: "read_int s = Got v r \<Longrightarrow> - (2 ^ 31) \<le> v \<and> v < 2 ^ 31"
  by (auto simp: read_int_def split: option.splits dest: scan_int_range)

lemma read_header_range:
  assumes "read_header s = Inr ((w, h, maxv), r)"
  shows "- (2 ^ 31) \<le> w \<and> w < 2 ^ 31 \<and> - (2 ^ 31) \<le> h \<and> h < 2 ^ 31 \<and>
         - (2 ^ 31) \<le> maxv \<and> maxv < 2 ^ 31"
proof -
  from assms obtain s1 s2 where "read_int s = Got w s1" "read_int s1 = Got h s2" "read_int s2 = Got maxv r"
    by (auto simp: read_header_def split: read_result.splits)
  then show ?thesis using read_int_range by blast
qed

lemma product_bound:
  assumes "0 < w" "w < 2 ^ 31" "0 < h" "h < (2::int) ^ 31"
  shows "0 < w * h \<and> w * h < 2 ^ 62"
proof -
  have "w * h \<le> (2 ^ 31 - 1) * (2 ^ 31 - 1)"
    using assms by (intro mult_mono) auto
  moreover have "0 < w * h" using assms by simp
  ultimately show ?thesis by simp
qed

lemma nvals_of_cases:
  assumes "0 < w" "w < 2 ^ 31" "0 < h" "h < (2::int) ^ 31"
  shows "(w * h * 3 < 2 ^ 63 \<longrightarrow> nvals_of w h = w * h * 3) \<and>
         (2 ^ 63 \<le> w * h * 3 \<longrightarrow> nvals_of w h < 0)"
proof -
  from product_bound [OF assms] have p: "0 < w * h" "w * h < 2 ^ 62" by blast+
  then have 1: "wrap64 (w * h) = w * h" by (intro wrap64_id) auto
  have "w * h * 3 < 2 ^ 64" using p by simp
  then show ?thesis
    unfolding nvals_of_def 1 using p
    by (auto simp: wrap64_id wrap64_high)
qed

lemma size_check_correct:
  assumes "0 < w" "w < 2 ^ 31" "0 < h" "h < (2::int) ^ 31"
  shows "(nvals_of w h \<le> 0 \<or> nvals_of w h > 200000000) \<longleftrightarrow> 200000000 < w * h * 3"
    and "w * h * 3 \<le> 200000000 \<Longrightarrow> nvals_of w h = w * h * 3"
proof -
  define p where "p = w * h * 3"
  from product_bound [OF assms] have p: "0 < p" by (simp add: p_def)
  from nvals_of_cases [OF assms]
  have c: "p < 2 ^ 63 \<longrightarrow> nvals_of w h = p" "2 ^ 63 \<le> p \<longrightarrow> nvals_of w h < 0"
    by (simp_all add: p_def)
  show "(nvals_of w h \<le> 0 \<or> nvals_of w h > 200000000) \<longleftrightarrow> 200000000 < w * h * 3"
    unfolding p_def [symmetric] using c p by (cases "p < 2 ^ 63") auto
  show "w * h * 3 \<le> 200000000 \<Longrightarrow> nvals_of w h = w * h * 3"
    unfolding p_def [symmetric] using c by auto
qed

lemma check_header_too_large:
  assumes "0 < w" "w < 2 ^ 31" "0 < h" "h < 2 ^ 31" "1 \<le> maxv" "maxv \<le> 65535"
  shows "check_header w h maxv = (if 200000000 < w * h * 3 then Inl ImageTooLarge else Inr (w * h * 3))"
  using size_check_correct [OF assms(1-4)] assms
  by (auto simp: check_header_def Let_def)

lemma check_header_Inr:
  assumes "check_header w h maxv = Inr nvals" "w < 2 ^ 31" "h < 2 ^ 31"
  shows "0 < w \<and> 0 < h \<and> 1 \<le> maxv \<and> maxv \<le> 65535 \<and> nvals = w * h * 3 \<and> 0 < nvals \<and> nvals \<le> 200000000"
proof -
  have a: "0 < w" "0 < h" "1 \<le> maxv" "maxv \<le> 65535"
    using assms(1) by (auto simp: check_header_def split: if_splits)
  from check_header_too_large [OF a(1) assms(2) a(2) assms(3) a(3,4)] assms(1)
  have "nvals = w * h * 3" "w * h * 3 \<le> 200000000" by (auto split: if_splits)
  moreover have "0 < w * h" using a by simp
  ultimately show ?thesis using a by simp
qed


lemma take_Suc_update: "i < length xs \<Longrightarrow> take (Suc i) (xs[i := v]) = take i xs @ [v]"
  by (simp add: take_Suc_conv_app_nth)

lemma read_pixels_step:
  "i < n \<Longrightarrow> read_pixels i n maxv pix s =
     (case read_int s of
        Eof \<Rightarrow> Inl UnexpectedEndOfData
      | Bad \<Rightarrow> Inl MalformedInteger
      | Got v r \<Rightarrow>
          if v < 0 \<or> v > maxv then Inl PixelOutOfRange
          else read_pixels (Suc i) n maxv (pix[i := v]) r)"
  by (subst read_pixels.simps) (simp split: read_result.splits)

lemma read_pixels_done: "\<not> i < n \<Longrightarrow> read_pixels i n maxv pix s = Inr (pix, s)"
  by (subst read_pixels.simps) simp

lemma read_pixels_success:
  "read_ints k s = Some (vs, r) \<Longrightarrow> list_all (\<lambda>v. 0 \<le> v \<and> v \<le> maxv) vs \<Longrightarrow> i + k = n \<Longrightarrow>
   length pix = n \<Longrightarrow> read_pixels i n maxv pix s = Inr (take i pix @ vs, r)"
proof (induction k arbitrary: s vs i pix)
  case 0
  then show ?case by (simp add: read_pixels_done)
next
  case (Suc k)
  from Suc.prems(1) obtain v r1 vs1 where
    g: "read_int s = Got v r1" and rest: "read_ints k r1 = Some (vs1, r)" and vs: "vs = v # vs1"
    by (auto split: read_result.splits option.splits)
  have ok: "0 \<le> v" "v \<le> maxv" "list_all (\<lambda>v. 0 \<le> v \<and> v \<le> maxv) vs1"
    using Suc.prems(2) vs by simp_all
  have i: "i < n" "i < length pix" using Suc.prems by simp_all
  have "read_pixels (Suc i) n maxv (pix[i := v]) r1 = Inr (take (Suc i) (pix[i := v]) @ vs1, r)"
    using Suc.prems by (intro Suc.IH [OF rest ok(3)]) simp_all
  then show ?case
    using g ok vs i(2) by (subst read_pixels_step [OF i(1)]) (simp add: take_Suc_update)
qed

lemma read_pixels_result:
  "read_pixels i n maxv pix s = Inr (pix', r) \<Longrightarrow> i + k = n \<Longrightarrow> length pix = n \<Longrightarrow>
   \<exists>vs. read_ints k s = Some (vs, r) \<and> list_all (\<lambda>v. 0 \<le> v \<and> v \<le> maxv) vs \<and> pix' = take i pix @ vs"
proof (induction k arbitrary: s i pix)
  case 0
  then show ?case by (simp add: read_pixels_done)
next
  case (Suc k)
  have i: "i < n" "i < length pix" using Suc.prems by simp_all
  from Suc.prems(1) obtain v r1 where
    g: "read_int s = Got v r1" and ok: "0 \<le> v" "v \<le> maxv"
    and rest: "read_pixels (Suc i) n maxv (pix[i := v]) r1 = Inr (pix', r)"
    unfolding read_pixels_step [OF i(1)]
    by (cases "read_int s") (auto split: if_splits)
  from Suc.IH [OF rest] Suc.prems obtain vs where
    "read_ints k r1 = Some (vs, r)" "list_all (\<lambda>v. 0 \<le> v \<and> v \<le> maxv) vs"
    "pix' = take (Suc i) (pix[i := v]) @ vs"
    by auto
  then show ?case
    using g ok i by (simp add: take_Suc_update)
qed

lemma read_pixels_stop:
  assumes "i < n" "\<not> (\<exists>v r'. read_int s = Got v r' \<and> 0 \<le> v \<and> v \<le> maxv)"
  shows "read_pixels i n maxv pix s =
     (case read_int s of
        Eof \<Rightarrow> Inl UnexpectedEndOfData
      | Bad \<Rightarrow> Inl MalformedInteger
      | Got v r' \<Rightarrow> Inl PixelOutOfRange)"
proof (cases "read_int s")
  case Eof
  then show ?thesis by (subst read_pixels_step [OF assms(1)]) simp
next
  case Bad
  then show ?thesis by (subst read_pixels_step [OF assms(1)]) simp
next
  case (Got v r')
  with assms(2) have "v < 0 \<or> maxv < v" by auto
  with Got show ?thesis by (subst read_pixels_step [OF assms(1)]) simp
qed

lemma read_pixels_failure:
  "read_ints k s = Some (vs, r) \<Longrightarrow> list_all (\<lambda>v. 0 \<le> v \<and> v \<le> maxv) vs \<Longrightarrow> i + k < n \<Longrightarrow>
   \<not> (\<exists>v r'. read_int r = Got v r' \<and> 0 \<le> v \<and> v \<le> maxv) \<Longrightarrow>
   read_pixels i n maxv pix s =
     (case read_int r of
        Eof \<Rightarrow> Inl UnexpectedEndOfData
      | Bad \<Rightarrow> Inl MalformedInteger
      | Got v r' \<Rightarrow> Inl PixelOutOfRange)"
proof (induction k arbitrary: s vs i pix)
  case 0
  then have s: "s = r" and i: "i < n" by simp_all
  from read_pixels_stop [OF i "0.prems"(4) [folded s]] show ?case by (simp add: s)
next
  case (Suc k)
  from Suc.prems(1) obtain v r1 vs1 where
    g: "read_int s = Got v r1" and rest: "read_ints k r1 = Some (vs1, r)" and vs: "vs = v # vs1"
    by (auto split: read_result.splits option.splits)
  have ok: "0 \<le> v" "v \<le> maxv" "list_all (\<lambda>v. 0 \<le> v \<and> v \<le> maxv) vs1"
    using Suc.prems(2) vs by simp_all
  have i: "i < n" "Suc i + k < n" using Suc.prems(3) by simp_all
  have "read_pixels (Suc i) n maxv (pix[i := v]) r1 =
     (case read_int r of
        Eof \<Rightarrow> Inl UnexpectedEndOfData
      | Bad \<Rightarrow> Inl MalformedInteger
      | Got v r' \<Rightarrow> Inl PixelOutOfRange)"
    by (rule Suc.IH [OF rest ok(3) i(2) Suc.prems(4)])
  moreover have "read_pixels i n maxv pix s = read_pixels (Suc i) n maxv (pix[i := v]) r1"
    using g ok by (subst read_pixels_step [OF i(1)]) simp
  ultimately show ?case by simp
qed

lemma length_read_ints: "read_ints k s = Some (vs, r) \<Longrightarrow> length vs = k"
  by (induction k arbitrary: s vs) (auto split: read_result.splits option.splits)


lemma read_pixels_Inr:
  assumes "read_pixels 0 n maxv pix s = Inr (pix', r)" "length pix = n"
  shows "read_ints n s = Some (pix', r) \<and> list_all (\<lambda>v. 0 \<le> v \<and> v \<le> maxv) pix' \<and> length pix' = n"
  using read_pixels_result [OF assms(1), of n] assms(2) by (auto dest: length_read_ints)

lemma load_image_Inr:
  assumes "load_image malloc_ok input = Inr img"
  shows "\<exists>s0 s1 rest.
           read_magic input = Some (''P3'', s0) \<and>
           read_header s0 = Inr ((width img, height img, max_value img), s1) \<and>
           check_header (width img) (height img) (max_value img) = Inr (width img * height img * 3) \<and>
           malloc_ok (nat (width img * height img * 3) * 4) \<and>
           read_pixels 0 (nat (width img * height img * 3)) (max_value img)
             (replicate (nat (width img * height img * 3)) 0) s1 = Inr (channels img, rest)"
proof -
  from assms obtain magic s0 where m: "read_magic input = Some (magic, s0)"
    by (auto simp: load_image_def split: option.splits)
  with assms have p3: "magic = ''P3''"
    by (auto simp: load_image_def split: if_splits)
  from assms m p3 obtain w h maxv s1 where hd: "read_header s0 = Inr ((w, h, maxv), s1)"
    by (auto simp: load_image_def split: sum.splits)
  from assms m p3 hd obtain nvals where ck: "check_header w h maxv = Inr nvals"
    by (auto simp: load_image_def split: sum.splits)
  from assms m p3 hd ck have mo: "malloc_ok (nat nvals * 4)"
    by (auto simp: load_image_def split: if_splits)
  from assms m p3 hd ck mo obtain pix rest where
    rp: "read_pixels 0 (nat nvals) maxv (replicate (nat nvals) 0) s1 = Inr (pix, rest)"
    and img: "img = \<lparr>width = w, height = h, max_value = maxv, channels = pix\<rparr>"
    by (auto simp: load_image_def split: sum.splits)
  from read_header_range [OF hd] have "w < 2 ^ 31" "h < 2 ^ 31" by simp_all
  from check_header_Inr [OF ck this] have "nvals = w * h * 3" by simp
  with m p3 hd ck mo rp img show ?thesis by auto
qed

lemma load_image_valid:
  assumes "load_image malloc_ok input = Inr img"
  shows "valid_image img \<and> width img * height img * 3 \<le> 200000000 \<and>
         malloc_ok (nat (width img * height img * 3) * 4)"
proof -
  let ?n = "width img * height img * 3"
  from load_image_Inr [OF assms] obtain s0 s1 rest where
    hd: "read_header s0 = Inr ((width img, height img, max_value img), s1)"
    and ck: "check_header (width img) (height img) (max_value img) = Inr ?n"
    and mo: "malloc_ok (nat ?n * 4)"
    and rp: "read_pixels 0 (nat ?n) (max_value img) (replicate (nat ?n) 0) s1 = Inr (channels img, rest)"
    by blast
  from read_header_range [OF hd] have "width img < 2 ^ 31" "height img < 2 ^ 31" by simp_all
  from check_header_Inr [OF ck this]
  have c: "0 < width img" "0 < height img" "1 \<le> max_value img" "max_value img \<le> 65535"
    "0 < ?n" "?n \<le> 200000000" by simp_all
  have len: "length (replicate (nat ?n) (0::int)) = nat ?n" by simp
  from read_pixels_Inr [OF rp len]
  have "length (channels img) = nat ?n"
    "list_all (\<lambda>v. 0 \<le> v \<and> v \<le> max_value img) (channels img)" by simp_all
  with c mo show ?thesis by (simp add: valid_image_def)
qed

lemma nvals_of_exact:
  assumes "0 < w" "0 < h" "fits_long_long (w * h * 3)"
  shows "nvals_of w h = w * h * 3"
proof -
  define q where "q = w * h"
  have q: "0 < q" using assms(1,2) by (simp add: q_def)
  have f: "q * 3 \<le> 2 ^ 63 - 1" using assms(3) by (simp add: fits_long_long_def q_def)
  have "wrap64 q = q" using q f by (intro wrap64_id) linarith+
  moreover have "wrap64 (q * 3) = q * 3" using q f by (intro wrap64_id) linarith+
  ultimately show ?thesis by (simp add: nvals_of_def q_def [symmetric])
qed

text \<open>
  C6, as amended. For every header with \<open>width > 0\<close>, \<open>height > 0\<close> and a max-value in
  \<open>1..65535\<close> whose product \<open>width * height * 3\<close> lies in the range of \<open>long long\<close> and
  exceeds 200,000,000, the program fails with \<open>ImageTooLarge\<close>, whatever \<open>malloc\<close> would
  answer: no buffer is requested before. For these headers the check is right: a product
  of at most 200,000,000 passes it and is the count \<open>nvals\<close>. Nothing is said of a product
  beyond the range of \<open>long long\<close>.
\<close>

theorem oversized_image_rejected:
  assumes "read_magic input = Some (''P3'', s0)"
    and "read_header s0 = Inr ((w, h, maxv), s1)"
    and "0 < w" "0 < h" "1 \<le> maxv" "maxv \<le> 65535"
    and "fits_long_long (w * h * 3)"
  shows "(200000000 < w * h * 3 \<longrightarrow>
            load_image malloc_ok input = Inl ImageTooLarge \<and>
            main malloc_ok input = Inl ImageTooLarge) \<and>
         (w * h * 3 \<le> 200000000 \<longrightarrow> check_header w h maxv = Inr (w * h * 3))"
proof -
  define p where "p = w * h * 3"
  have n: "nvals_of w h = p"
    unfolding p_def using assms(3,4,7) by (rule nvals_of_exact)
  have pos: "0 < p" using assms(3,4) by (simp add: p_def)
  have c: "check_header w h maxv = (if 200000000 < p then Inl ImageTooLarge else Inr p)"
    using assms(3-6) pos by (simp add: check_header_def n)
  have big: "check_header w h maxv = Inl ImageTooLarge" if "200000000 < w * h * 3"
    using c that by (simp add: p_def)
  have small: "check_header w h maxv = Inr (w * h * 3)" if "w * h * 3 \<le> 200000000"
    using c that by (simp add: p_def)
  have l: "load_image malloc_ok input = Inl ImageTooLarge" if "200000000 < w * h * 3"
    unfolding load_image_def using assms(1,2) big [OF that] by simp
  then have "main malloc_ok input = Inl ImageTooLarge" if "200000000 < w * h * 3"
    unfolding main_def using that by simp
  with l small show ?thesis by blast
qed

theorem oversized_image_rejected_witness:
  "read_magic ''P3 100000 100000 255 1 2 3'' = Some (''P3'', '' 100000 100000 255 1 2 3'') \<and>
   read_header '' 100000 100000 255 1 2 3'' = Inr ((100000, 100000, 255), '' 1 2 3'') \<and>
   fits_long_long (100000 * 100000 * 3) \<and>
   (200000000 :: int) < 100000 * 100000 * 3 \<and>
   load_image (\<lambda>n. False) ''P3 100000 100000 255 1 2 3'' = Inl ImageTooLarge \<and>
   main (\<lambda>n. False) ''P3 100000 100000 255 1 2 3'' = Inl ImageTooLarge"
proof -
  have m: "read_magic ''P3 100000 100000 255 1 2 3'' = Some (''P3'', '' 100000 100000 255 1 2 3'')"
    by code_simp
  have h: "read_header '' 100000 100000 255 1 2 3'' = Inr ((100000, 100000, 255), '' 1 2 3'')"
    by code_simp
  have f: "fits_long_long (100000 * 100000 * 3)"
    by (simp add: fits_long_long_def)
  from oversized_image_rejected [OF m h _ _ _ _ f, of "\<lambda>n. False"] m h f
  show ?thesis by simp
qed

text \<open>
  The claim C6 as it is stated fails in two ways. For every header with positive width
  and height: a header whose max-value is out of range exits at line 80, before line 83
  is reached. Computed with overflow-safe arithmetic, for all widths and heights of the
  type \<open>int\<close>: the header \<open>2147483647 2147483647 255\<close> is one that \<open>read_header\<close> returns,
  and its product \<open>width * height * 3\<close> is beyond the range of \<open>long long\<close>, so that line 82
  overflows and \<open>nvals\<close> is not the product.
\<close>

theorem oversized_image_invalid_maxval:
  "read_magic ''P3 100000 100000 0 1 2 3'' = Some (''P3'', '' 100000 100000 0 1 2 3'') \<and>
   read_header '' 100000 100000 0 1 2 3'' = Inr ((100000, 100000, 0), '' 1 2 3'') \<and>
   (200000000 :: int) < 100000 * 100000 * 3 \<and>
   load_image (\<lambda>n. True) ''P3 100000 100000 0 1 2 3'' = Inl InvalidMaxValue \<and>
   load_image (\<lambda>n. True) ''P3 100000 100000 0 1 2 3'' \<noteq> Inl ImageTooLarge \<and>
   read_header '' 2147483647 2147483647 255 1 2 3'' =
     Inr ((2147483647, 2147483647, 255), '' 1 2 3'') \<and>
   \<not> fits_long_long (2147483647 * 2147483647 * 3) \<and>
   nvals_of 2147483647 2147483647 \<noteq> 2147483647 * 2147483647 * 3"
proof -
  have 1: "read_magic ''P3 100000 100000 0 1 2 3'' = Some (''P3'', '' 100000 100000 0 1 2 3'')"
    by code_simp
  have 2: "read_header '' 100000 100000 0 1 2 3'' = Inr ((100000, 100000, 0), '' 1 2 3'')"
    by code_simp
  have 3: "load_image (\<lambda>n. True) ''P3 100000 100000 0 1 2 3'' = Inl InvalidMaxValue"
    by code_simp
  have 4: "read_header '' 2147483647 2147483647 255 1 2 3'' =
      Inr ((2147483647, 2147483647, 255), '' 1 2 3'')"
    by code_simp
  have 5: "\<not> fits_long_long (2147483647 * 2147483647 * 3)"
    by (simp add: fits_long_long_def)
  have 6: "nvals_of 2147483647 2147483647 \<noteq> 2147483647 * 2147483647 * 3"
    by (simp add: nvals_of_def wrap64_def)
  from 1 2 3 4 5 6 show ?thesis by simp
qed

text \<open>
  C8. The loop of the pixel loader succeeds exactly when \<open>nvals\<close> calls of \<open>read_int\<close> one
  after the other return integers that all lie in \<open>[0, max_value]\<close>; then the buffer holds
  exactly these \<open>nvals\<close> integers in the order of the stream. When the first \<open>k < nvals\<close>
  integers are in range and the next one is not, the loader fails with \<open>PixelOutOfRange\<close>;
  when the stream ends after them, it fails with \<open>UnexpectedEndOfData\<close>. In \<open>main\<close> the
  count \<open>nvals\<close> is \<open>width * height * 3\<close>.
\<close>

theorem pixel_loader:
  assumes "length pix = n"
  shows "(read_pixels 0 n maxv pix s = Inr (pix', r) \<longleftrightarrow>
            read_ints n s = Some (pix', r) \<and> list_all (\<lambda>v. 0 \<le> v \<and> v \<le> maxv) pix') \<and>
         (read_pixels 0 n maxv pix s = Inr (pix', r) \<longrightarrow> length pix' = n) \<and>
         (load_image malloc_ok input = Inr img \<longrightarrow>
            int (length (channels img)) = width img * height img * 3) \<and>
         (\<forall>k vs t v t'. k < n \<and> read_ints k s = Some (vs, t) \<and>
              list_all (\<lambda>v. 0 \<le> v \<and> v \<le> maxv) vs \<and> read_int t = Got v t' \<and> (v < 0 \<or> maxv < v) \<longrightarrow>
              read_pixels 0 n maxv pix s = Inl PixelOutOfRange) \<and>
         (\<forall>k vs t. k < n \<and> read_ints k s = Some (vs, t) \<and>
              list_all (\<lambda>v. 0 \<le> v \<and> v \<le> maxv) vs \<and> read_int t = Eof \<longrightarrow>
              read_pixels 0 n maxv pix s = Inl UnexpectedEndOfData)"
proof (intro conjI allI impI)
  show "read_pixels 0 n maxv pix s = Inr (pix', r) \<longleftrightarrow>
          read_ints n s = Some (pix', r) \<and> list_all (\<lambda>v. 0 \<le> v \<and> v \<le> maxv) pix'"
    using read_pixels_result [of 0 n maxv pix s pix' r n]
      read_pixels_success [of n s pix' r maxv 0 n pix] assms
    by auto
next
  assume "read_pixels 0 n maxv pix s = Inr (pix', r)"
  with read_pixels_result [of 0 n maxv pix s pix' r n] assms
  show "length pix' = n" by (auto dest: length_read_ints)
next
  assume "load_image malloc_ok input = Inr img"
  from load_image_valid [OF this]
  show "int (length (channels img)) = width img * height img * 3"
    by (simp add: valid_image_def)
next
  fix k vs t v t'
  assume "k < n \<and> read_ints k s = Some (vs, t) \<and>
      list_all (\<lambda>v. 0 \<le> v \<and> v \<le> maxv) vs \<and> read_int t = Got v t' \<and> (v < 0 \<or> maxv < v)"
  with read_pixels_failure [of k s vs t maxv 0 n pix]
  show "read_pixels 0 n maxv pix s = Inl PixelOutOfRange" by auto
next
  fix k vs t
  assume "k < n \<and> read_ints k s = Some (vs, t) \<and>
      list_all (\<lambda>v. 0 \<le> v \<and> v \<le> maxv) vs \<and> read_int t = Eof"
  with read_pixels_failure [of k s vs t maxv 0 n pix]
  show "read_pixels 0 n maxv pix s = Inl UnexpectedEndOfData" by auto
qed

theorem pixel_loader_witness:
  "read_pixels 0 3 255 [0, 0, 0] ''1 2 3'' = Inr ([1, 2, 3], []) \<and>
   read_pixels 0 3 255 [0, 0, 0] ''1 2 300'' = Inl PixelOutOfRange \<and>
   read_pixels 0 3 255 [0, 0, 0] ''1 2 '' = Inl UnexpectedEndOfData"
proof -
  have len: "length [0, 0, 0 :: int] = 3" by simp
  have k: "(2::nat) < 3" by simp
  have l: "list_all (\<lambda>v. 0 \<le> v \<and> v \<le> 255) [1, 2 :: int]" by simp
  have a: "read_ints 3 ''1 2 3'' = Some ([1, 2, 3], [])" by code_simp
  from pixel_loader [OF len, of 255 "''1 2 3''" "[1, 2, 3]" "[]"] a
  have 1: "read_pixels 0 3 255 [0, 0, 0] ''1 2 3'' = Inr ([1, 2, 3], [])" by simp
  have b: "read_ints 2 ''1 2 300'' = Some ([1, 2], '' 300'')" by code_simp
  have c: "read_int '' 300'' = Got 300 []" by code_simp
  have o: "(300::int) < 0 \<or> 255 < (300::int)" by simp
  from pixel_loader [OF len, of 255 "''1 2 300''" "[]" "[]"]
  have "\<forall>k vs t v t'. k < 3 \<and> read_ints k ''1 2 300'' = Some (vs, t) \<and>
              list_all (\<lambda>v. 0 \<le> v \<and> v \<le> 255) vs \<and> read_int t = Got v t' \<and> (v < 0 \<or> 255 < v) \<longrightarrow>
              read_pixels 0 3 255 [0, 0, 0] ''1 2 300'' = Inl PixelOutOfRange"
    by blast
  with k b l c o have 2: "read_pixels 0 3 255 [0, 0, 0] ''1 2 300'' = Inl PixelOutOfRange"
    by blast
  have d: "read_ints 2 ''1 2 '' = Some ([1, 2], '' '')" by code_simp
  have e: "read_int '' '' = Eof" by code_simp
  from pixel_loader [OF len, of 255 "''1 2 ''" "[]" "[]"]
  have "\<forall>k vs t. k < 3 \<and> read_ints k ''1 2 '' = Some (vs, t) \<and>
              list_all (\<lambda>v. 0 \<le> v \<and> v \<le> 255) vs \<and> read_int t = Eof \<longrightarrow>
              read_pixels 0 3 255 [0, 0, 0] ''1 2 '' = Inl UnexpectedEndOfData"
    by blast
  with k d l e have 3: "read_pixels 0 3 255 [0, 0, 0] ''1 2 '' = Inl UnexpectedEndOfData"
    by blast
  from 1 2 3 show ?thesis by simp
qed

section \<open>The serializer: proofs\<close>

lemma c_mod_nonneg: "0 \<le> a \<Longrightarrow> c_mod a 15 = a mod 15"
  by (simp add: c_mod_def c_div_def sgn_if minus_mult_div_eq_mod)

lemma c_mod_of_nat: "c_mod (int k) 15 = 0 \<longleftrightarrow> k mod 15 = 0"
proof -
  have "c_mod (int k) 15 = int (k mod 15)"
    by (simp add: c_mod_nonneg zmod_int)
  then show ?thesis by simp
qed

lemma write_pixels_step:
  "i < n \<Longrightarrow> write_pixels i n outpix count out =
     write_pixels (Suc i) n outpix (count + 1)
       (out @ show_int (outpix ! i) @ (if c_mod (count + 1) 15 = 0 then [newline] else '' ''))"
  by (subst write_pixels.simps) (simp add: Let_def)

lemma write_pixels_done: "\<not> i < n \<Longrightarrow> write_pixels i n outpix count out = (out, count)"
  by (subst write_pixels.simps) simp

lemma token_text_pair:
  "token_text (k, v) = show_int v @ (if Suc k mod 15 = 0 then [newline] else '' '')"
  by (simp add: token_text_def)

lemma write_pixels_closed:
  "i + k = length outpix \<Longrightarrow>
   write_pixels i (length outpix) outpix (int i) out =
     (out @ concat (map token_text (enumerate i (drop i outpix))), int (length outpix))"
proof (induction k arbitrary: i out)
  case 0
  then show ?case by (simp add: write_pixels_done)
next
  case (Suc k)
  then have i: "i < length outpix" by simp
  have d: "drop i outpix = outpix ! i # drop (Suc i) outpix"
    using i by (simp add: Cons_nth_drop_Suc)
  have "int i + 1 = int (Suc i)" by simp
  then have "write_pixels i (length outpix) outpix (int i) out =
      write_pixels (Suc i) (length outpix) outpix (int (Suc i))
        (out @ show_int (outpix ! i) @ (if Suc i mod 15 = 0 then [newline] else '' ''))"
    by (subst write_pixels_step [OF i]) (simp only: c_mod_of_nat)
  also have "\<dots> = ((out @ show_int (outpix ! i) @ (if Suc i mod 15 = 0 then [newline] else '' '')) @
      concat (map token_text (enumerate (Suc i) (drop (Suc i) outpix))), int (length outpix))"
    using Suc.prems by (intro Suc.IH) simp
  finally show ?case by (simp add: d token_text_pair)
qed

lemma write_image_closed:
  "write_image w h maxv (length outpix) outpix =
     header_text w h maxv @ concat (map token_text (enumerate 0 outpix)) @
     (if length outpix mod 15 \<noteq> 0 then [newline] else [])"
proof -
  let ?hd = "header_text w h maxv"
  have w: "write_pixels 0 (length outpix) outpix 0 ?hd =
        (?hd @ concat (map token_text (enumerate 0 outpix)), int (length outpix))"
    using write_pixels_closed [of 0 "length outpix" outpix] by simp
  have "write_image w h maxv (length outpix) outpix =
      (let (out, count) = write_pixels 0 (length outpix) outpix 0 ?hd
       in if c_mod count 15 \<noteq> 0 then out @ [newline] else out)"
    by (simp add: write_image_def header_text_def)
  then show ?thesis
    unfolding w by (simp add: c_mod_of_nat)
qed

text \<open>
  C5, as amended. The output file is the header \<open>P3\<close>, newline, width, space, height,
  newline, max-value, newline, then every channel value as a decimal token followed by
  one byte: a newline after every 15th token and a single space after every other token,
  the last one too; then one more newline if the count of the tokens is not a multiple
  of 15. Nothing else is written.
\<close>

theorem serialize_layout:
  "serialize img =
     ''P3'' @ [newline] @ show_int (width img) @ '' '' @ show_int (height img) @ [newline] @
     show_int (max_value img) @ [newline] @
     concat (map (\<lambda>(k, v). show_int v @ (if Suc k mod 15 = 0 then [newline] else '' ''))
       (enumerate 0 (channels img))) @
     (if length (channels img) mod 15 \<noteq> 0 then [newline] else [])"
proof -
  have t: "token_text = (\<lambda>(k, v). show_int v @ (if Suc k mod 15 = 0 then [newline] else '' ''))"
    by (simp add: fun_eq_iff token_text_def)
  have "serialize img =
      header_text (width img) (height img) (max_value img) @
      concat (map token_text (enumerate 0 (channels img))) @
      (if length (channels img) mod 15 \<noteq> 0 then [newline] else [])"
    unfolding serialize_def by (rule write_image_closed)
  then show ?thesis
    unfolding t header_text_def by simp
qed

text \<open>
  The claim C5 as it is stated, with spaces only between the tokens of a line, fails
  on an image of one pixel: the file ends with \<open>7 8 9\<close>, a space and a newline.
\<close>

theorem serialize_trailing_space:
  "serialize \<lparr>width = 1, height = 1, max_value = 255, channels = [7, 8, 9]\<rparr> =
     ''P3'' @ [newline] @ ''1 1'' @ [newline] @ ''255'' @ [newline] @ ''7 8 9 '' @ [newline] \<and>
   spec_serialize \<lparr>width = 1, height = 1, max_value = 255, channels = [7, 8, 9]\<rparr> =
     ''P3'' @ [newline] @ ''1 1'' @ [newline] @ ''255'' @ [newline] @ ''7 8 9'' @ [newline] \<and>
   serialize \<lparr>width = 1, height = 1, max_value = 255, channels = [7, 8, 9]\<rparr> \<noteq>
   spec_serialize \<lparr>width = 1, height = 1, max_value = 255, channels = [7, 8, 9]\<rparr>"
  by code_simp

section \<open>Writing and reading back: proofs\<close>

lemma isspace_simps [simp]:
  "isspace CHR '' ''" "isspace newline" "\<not> isspace CHR ''P''" "\<not> isspace CHR ''3''"
  "\<not> isspace CHR ''-''" "\<not> isspace CHR ''#''"
  by (simp_all add: isspace_def newline_def)

lemma isdigit_not_space: "isdigit c \<Longrightarrow> \<not> isspace c"
  by (auto simp: isdigit_def isspace_def)

lemma isdigit_not_special: "isdigit c \<Longrightarrow> c \<noteq> CHR ''#'' \<and> c \<noteq> CHR ''-'' \<and> c \<noteq> CHR ''+''"
  by (auto simp: isdigit_def)

lemma isspace_not_digit: "isspace c \<Longrightarrow> \<not> isdigit c"
  using isdigit_not_space by blast

lemma isdigit_digit_char: "d < 10 \<Longrightarrow> isdigit (digit_char d)"
  by (simp add: isdigit_def digit_char_def)

lemma digit_val_digit_char: "d < 10 \<Longrightarrow> digit_val (digit_char d) = int d"
  by (simp add: digit_val_def digit_char_def)

lemma show_nat_digits: "list_all isdigit (show_nat n)"
proof (induction n rule: show_nat.induct)
  case (1 n)
  show ?case
  proof (cases "n < 10")
    case True
    then show ?thesis by (subst show_nat.simps) (simp add: isdigit_digit_char)
  next
    case False
    with 1 show ?thesis by (subst show_nat.simps) (simp add: isdigit_digit_char)
  qed
qed

lemma show_nat_nonempty: "show_nat n \<noteq> []"
  by (subst show_nat.simps) simp

lemma decimal_snoc: "decimal (ds @ [c]) = 10 * decimal ds + digit_val c"
  by (simp add: decimal_def)

lemma decimal_show_nat: "decimal (show_nat n) = int n"
proof (induction n rule: show_nat.induct)
  case (1 n)
  show ?case
  proof (cases "n < 10")
    case True
    then show ?thesis
      by (subst show_nat.simps) (simp add: decimal_def digit_val_digit_char)
  next
    case False
    then have "decimal (show_nat (n div 10)) = int (n div 10)" by (rule 1)
    then have "decimal (show_nat n) = 10 * int (n div 10) + int (n mod 10)"
      using False by (subst show_nat.simps) (simp add: decimal_snoc digit_val_digit_char)
    then show ?thesis by (simp add: zdiv_int zmod_int)
  qed
qed

lemma takeWhile_digits:
  "list_all isdigit ds \<Longrightarrow> \<not> isdigit c \<Longrightarrow> takeWhile isdigit (ds @ c # rest) = ds"
  by (induction ds) simp_all

lemma dropWhile_digits:
  "list_all isdigit ds \<Longrightarrow> \<not> isdigit c \<Longrightarrow> dropWhile isdigit (ds @ c # rest) = c # rest"
  by (induction ds) simp_all

lemma scan_int_show_nat:
  assumes "\<not> isdigit c"
  shows "scan_int (show_nat n @ c # rest) = Some (store_int (int n), c # rest)"
proof -
  obtain d ds where s: "show_nat n = d # ds"
    using show_nat_nonempty [of n] by (cases "show_nat n") auto
  have dg: "list_all isdigit (d # ds)" using show_nat_digits [of n] s by simp
  then have "d \<noteq> CHR ''-''" "d \<noteq> CHR ''+''" using isdigit_not_special by auto
  moreover have "takeWhile isdigit ((d # ds) @ c # rest) = d # ds"
    "dropWhile isdigit ((d # ds) @ c # rest) = c # rest"
    using dg assms by (rule takeWhile_digits, rule dropWhile_digits)
  moreover have "decimal (d # ds) = int n" using decimal_show_nat [of n] s by simp
  ultimately show ?thesis
    unfolding s by (simp add: scan_int_def)
qed

lemma scan_int_show_int:
  assumes "\<not> isdigit c"
  shows "scan_int (show_int v @ c # rest) = Some (store_int v, c # rest)"
proof (cases "v < 0")
  case False
  then show ?thesis
    using scan_int_show_nat [OF assms, of "nat v" rest] by (simp add: show_int_def)
next
  case True
  have "takeWhile isdigit (show_nat (nat (- v)) @ c # rest) = show_nat (nat (- v))"
    "dropWhile isdigit (show_nat (nat (- v)) @ c # rest) = c # rest"
    using show_nat_digits assms by (rule takeWhile_digits, rule dropWhile_digits)
  moreover have "decimal (show_nat (nat (- v))) = - v"
    using True by (simp add: decimal_show_nat)
  ultimately show ?thesis
    using True show_nat_nonempty [of "nat (- v)"] by (simp add: scan_int_def show_int_def)
qed

lemma show_int_head: "\<exists>d ds. show_int v = d # ds \<and> \<not> isspace d \<and> d \<noteq> CHR ''#''"
proof (cases "v < 0")
  case True
  then show ?thesis by (simp add: show_int_def)
next
  case False
  obtain d ds where s: "show_nat (nat v) = d # ds"
    using show_nat_nonempty [of "nat v"] by (cases "show_nat (nat v)") auto
  then have "isdigit d" using show_nat_digits [of "nat v"] by simp
  then show ?thesis
    using False s isdigit_not_space isdigit_not_special by (auto simp: show_int_def)
qed

lemma store_int_id: "- (2 ^ 31) \<le> v \<Longrightarrow> v < 2 ^ 31 \<Longrightarrow> store_int v = v"
  by (simp add: store_int_def wrap32_def)

lemma read_int_show_int:
  assumes "\<not> isdigit c" "- (2 ^ 31) \<le> v" "v < 2 ^ 31"
  shows "read_int (show_int v @ c # rest) = Got v (c # rest)"
proof -
  obtain d ds where s: "show_int v = d # ds" "\<not> isspace d" "d \<noteq> CHR ''#''"
    using show_int_head by blast
  then have "skip_blank (show_int v @ c # rest) = Some (show_int v @ c # rest)" by simp
  then show ?thesis
    using scan_int_show_int [OF assms(1)] assms(2,3) by (simp add: read_int_def store_int_id)
qed

lemma read_int_space: "isspace c \<Longrightarrow> read_int (c # s) = read_int s"
  by (simp add: read_int_def)

lemma read_ints_space: "isspace c \<Longrightarrow> read_ints (Suc k) (c # s) = read_ints (Suc k) s"
  by (simp add: read_int_space)

lemma token_text_sep:
  "\<exists>c. token_text (k, v) = show_int v @ [c] \<and> isspace c"
  by (simp add: token_text_pair)

lemma read_ints_tokens:
  "list_all c_int vs \<Longrightarrow>
   \<exists>rest. read_ints (length vs) (concat (map token_text (enumerate k vs)) @ tail) = Some (vs, rest)"
proof (induction vs arbitrary: k)
  case Nil
  then show ?case by simp
next
  case (Cons v vs)
  from token_text_sep obtain c where c: "token_text (k, v) = show_int v @ [c]" "isspace c"
    by blast
  let ?rest = "concat (map token_text (enumerate (Suc k) vs)) @ tail"
  have v: "- (2 ^ 31) \<le> v" "v < 2 ^ 31" using Cons.prems by (simp_all add: c_int_def)
  have r: "read_int (show_int v @ c # ?rest) = Got v (c # ?rest)"
    using c(2) v by (intro read_int_show_int) (simp_all add: isspace_not_digit)
  from Cons.IH [of "Suc k"] Cons.prems obtain rest where
    ih: "read_ints (length vs) ?rest = Some (vs, rest)" by auto
  show ?case
  proof (cases vs)
    case Nil
    then show ?thesis using r c by simp
  next
    case (Cons a list)
    then obtain n where n: "length vs = Suc n" by simp
    have "read_ints (length vs) (c # ?rest) = Some (vs, rest)"
      using ih c(2) unfolding n by (simp only: read_ints_space)
    then show ?thesis using r c by simp
  qed
qed

lemma read_magic_header:
  "read_magic (header_text w h m @ body) =
     Some (''P3'', newline # show_int w @ CHR '' '' # show_int h @ newline # show_int m @ newline # body)"
  by (simp add: read_magic_def header_text_def)

lemma read_header_text:
  assumes "c_int w" "c_int h" "c_int m"
  shows "read_header (newline # show_int w @ CHR '' '' # show_int h @ newline # show_int m @ newline # body) =
     Inr ((w, h, m), newline # body)"
proof -
  have 1: "read_int (newline # show_int w @ CHR '' '' # show_int h @ newline # show_int m @ newline # body) =
      Got w (CHR '' '' # show_int h @ newline # show_int m @ newline # body)"
    using assms(1) by (simp add: read_int_space read_int_show_int isspace_not_digit c_int_def)
  have 2: "read_int (CHR '' '' # show_int h @ newline # show_int m @ newline # body) =
      Got h (newline # show_int m @ newline # body)"
    using assms(2) by (simp add: read_int_space read_int_show_int isspace_not_digit c_int_def)
  have 3: "read_int (newline # show_int m @ newline # body) = Got m (newline # body)"
    using assms(3) by (simp add: read_int_space read_int_show_int isspace_not_digit c_int_def)
  show ?thesis by (simp add: read_header_def 1 2 3)
qed

lemma dims_bounded:
  assumes "0 < w" "0 < h" "w * h * 3 \<le> (200000000::int)"
  shows "w < 2 ^ 31 \<and> h < 2 ^ 31"
proof -
  have "w * 1 \<le> w * h" using assms by (intro mult_left_mono) auto
  then have 1: "w \<le> w * h" by simp
  have "1 * h \<le> w * h" using assms by (intro mult_right_mono) auto
  then have 2: "h \<le> w * h" by simp
  have "w * h \<le> 66666666" using assms(3) by simp
  with 1 2 have "w \<le> 66666666" "h \<le> 66666666" by simp_all
  then show ?thesis by simp
qed

lemma load_serialize:
  assumes v: "valid_image img" and sz: "width img * height img * 3 \<le> 200000000"
    and mo: "malloc_ok (nat (width img * height img * 3) * 4)"
  shows "load_image malloc_ok (serialize img) = Inr img"
proof -
  let ?w = "width img" and ?h = "height img" and ?m = "max_value img" and ?pix = "channels img"
  let ?n = "?w * ?h * 3"
  let ?tail = "if length ?pix mod 15 \<noteq> 0 then [newline] else []"
  let ?body = "concat (map token_text (enumerate 0 ?pix)) @ ?tail"
  have a: "0 < ?w" "0 < ?h" "1 \<le> ?m" "?m \<le> 65535" "int (length ?pix) = ?n"
    "list_all (\<lambda>v. 0 \<le> v \<and> v \<le> ?m) ?pix"
    using v by (simp_all add: valid_image_def)
  from dims_bounded [OF a(1,2) sz] have b: "?w < 2 ^ 31" "?h < 2 ^ 31" by simp_all
  have ci: "c_int ?w" "c_int ?h" "c_int ?m" using a b by (simp_all add: c_int_def)
  have s: "serialize img = header_text ?w ?h ?m @ ?body"
    unfolding serialize_def by (rule write_image_closed)
  have m: "read_magic (serialize img) =
      Some (''P3'', newline # show_int ?w @ CHR '' '' # show_int ?h @ newline # show_int ?m @ newline # ?body)"
    unfolding s by (rule read_magic_header)
  have hd: "read_header (newline # show_int ?w @ CHR '' '' # show_int ?h @ newline # show_int ?m @ newline # ?body) =
      Inr ((?w, ?h, ?m), newline # ?body)"
    using ci by (rule read_header_text)
  have ck: "check_header ?w ?h ?m = Inr ?n"
    using check_header_too_large [OF a(1) b(1) a(2) b(2) a(3,4)] sz by simp
  have "list_all c_int ?pix"
    using a(4,6) by (auto simp: list_all_iff c_int_def)
  from read_ints_tokens [OF this, of 0 ?tail] obtain rest where
    "read_ints (length ?pix) ?body = Some (?pix, rest)" by blast
  moreover have "0 < length ?pix" using a by (cases ?pix) auto
  ultimately have "read_ints (length ?pix) (newline # ?body) = Some (?pix, rest)"
    by (cases "length ?pix") (simp_all only: read_ints_space isspace_simps)
  then have "read_pixels 0 (length ?pix) ?m (replicate (length ?pix) 0) (newline # ?body) =
      Inr (take 0 (replicate (length ?pix) 0) @ ?pix, rest)"
    using a(6) by (intro read_pixels_success) simp_all
  moreover have "nat ?n = length ?pix" using a(5) by simp
  ultimately show ?thesis
    using m hd ck mo by (simp add: load_image_def)
qed

lemma serialize_blur_header:
  "\<exists>body. serialize (blur img) = header_text (width img) (height img) (max_value img) @ body"
proof -
  have "serialize (blur img) =
      header_text (width (blur img)) (height (blur img)) (max_value (blur img)) @
      concat (map token_text (enumerate 0 (channels (blur img)))) @
      (if length (channels (blur img)) mod 15 \<noteq> 0 then [newline] else [])"
    unfolding serialize_def by (rule write_image_closed)
  then show ?thesis by (simp add: blur_def)
qed

text \<open>
  C4. For every output image of the program, that is the convolution of an image that was
  loaded, the serialized text parses back, with the same \<open>read_magic\<close>, \<open>read_header\<close>,
  \<open>read_int\<close> and pixel loop, to an image that is equal to the output image in memory in
  width, height, max-value and every channel value.
\<close>

theorem round_trip:
  assumes "load_image malloc_ok input = Inr img"
  shows "main malloc_ok input = Inr (serialize (blur img)) \<and>
         load_image malloc_ok (serialize (blur img)) = Inr (blur img)"
proof -
  from load_image_valid [OF assms]
  have v: "valid_image img" and sz: "width img * height img * 3 \<le> 200000000"
    and mo: "malloc_ok (nat (width img * height img * 3) * 4)" by simp_all
  have "valid_image (blur img)" using v by (rule blur_valid)
  moreover have "width (blur img) = width img" "height (blur img) = height img"
    by (simp_all add: blur_def)
  ultimately have "load_image malloc_ok (serialize (blur img)) = Inr (blur img)"
    using sz mo by (intro load_serialize) simp_all
  then show ?thesis using assms by (simp add: main_def)
qed

theorem round_trip_witness:
  "load_image (\<lambda>n. True) ''P3 1 1 255 7 8 9'' =
     Inr \<lparr>width = 1, height = 1, max_value = 255, channels = [7, 8, 9]\<rparr> \<and>
   load_image (\<lambda>n. True)
     (serialize (blur \<lparr>width = 1, height = 1, max_value = 255, channels = [7, 8, 9]\<rparr>)) =
     Inr (blur \<lparr>width = 1, height = 1, max_value = 255, channels = [7, 8, 9]\<rparr>)"
proof -
  have l: "load_image (\<lambda>n. True) ''P3 1 1 255 7 8 9'' =
      Inr \<lparr>width = 1, height = 1, max_value = 255, channels = [7, 8, 9]\<rparr>"
    by code_simp
  from round_trip [OF l] l show ?thesis by simp
qed

text \<open>
  C9. For every input on which the program completes, the output file starts with the
  header of the width, height and max-value of the input image, and the image that the
  output file holds has the width, height and max-value of the input image and as many
  channel values: only the channel values may differ.
\<close>

theorem header_preserved:
  assumes "main malloc_ok input = Inr out"
  shows "\<exists>img img' body.
           load_image malloc_ok input = Inr img \<and>
           out = header_text (width img) (height img) (max_value img) @ body \<and>
           load_image malloc_ok out = Inr img' \<and>
           width img' = width img \<and> height img' = height img \<and>
           max_value img' = max_value img \<and>
           length (channels img') = length (channels img)"
proof -
  from assms obtain img where l: "load_image malloc_ok input = Inr img"
    and out: "out = serialize (blur img)"
    by (auto simp: main_def split: sum.splits)
  from load_image_valid [OF l]
  have v: "valid_image img" and sz: "width img * height img * 3 \<le> 200000000"
    and mo: "malloc_ok (nat (width img * height img * 3) * 4)" by simp_all
  have f: "width (blur img) = width img" "height (blur img) = height img"
    "max_value (blur img) = max_value img"
    by (simp_all add: blur_def)
  have "valid_image (blur img)" using v by (rule blur_valid)
  then have "load_image malloc_ok out = Inr (blur img)"
    unfolding out using sz mo f by (intro load_serialize) simp_all
  moreover obtain body where
    "out = header_text (width img) (height img) (max_value img) @ body"
    unfolding out using serialize_blur_header by blast
  ultimately show ?thesis using l f length_blur [of img] by blast
qed

theorem header_preserved_witness:
  "main (\<lambda>n. True) ''P3 1 1 255 7 8 9'' =
     Inr (serialize (blur \<lparr>width = 1, height = 1, max_value = 255, channels = [7, 8, 9]\<rparr>)) \<and>
   (\<exists>img'. load_image (\<lambda>n. True)
              (serialize (blur \<lparr>width = 1, height = 1, max_value = 255, channels = [7, 8, 9]\<rparr>)) =
            Inr img' \<and>
          width img' = 1 \<and> height img' = 1 \<and> max_value img' = 255 \<and> length (channels img') = 3)"
proof -
  have l: "load_image (\<lambda>n. True) ''P3 1 1 255 7 8 9'' =
      Inr \<lparr>width = 1, height = 1, max_value = 255, channels = [7, 8, 9]\<rparr>"
    by code_simp
  then have m: "main (\<lambda>n. True) ''P3 1 1 255 7 8 9'' =
      Inr (serialize (blur \<lparr>width = 1, height = 1, max_value = 255, channels = [7, 8, 9]\<rparr>))"
    by (simp add: main_def)
  from header_preserved [OF m] l m show ?thesis by auto
qed

section \<open>Comments: proofs\<close>

lemma outcome_simps [simp]: "outcome (Inl e) = Inl e" "outcome (Inr (x, rest)) = Inr x"
  by (simp_all add: outcome_def)

lemma in_comment_Nil [simp]: "\<not> in_comment []"
  by (simp add: in_comment_def)

lemma takeWhile_all: "\<forall>x\<in>set xs. P x \<Longrightarrow> takeWhile P xs = xs"
  by (induction xs) simp_all

lemma in_comment_Cons: "c \<noteq> CHR ''#'' \<Longrightarrow> in_comment (c # a) = in_comment a"
  by (auto simp: in_comment_def takeWhile_append takeWhile_all)

lemma in_comment_hash: "in_comment (CHR ''#'' # a) = (in_comment a \<or> newline \<notin> set a)"
  by (auto simp: in_comment_def takeWhile_append takeWhile_all newline_def)

lemma in_comment_append: "CHR ''#'' \<notin> set q \<Longrightarrow> in_comment (q @ a) = in_comment a"
  by (induction q) (auto simp: in_comment_Cons)

lemma in_comment_newline: "in_comment (p @ newline # a) = in_comment a"
  by (auto simp: in_comment_def takeWhile_append takeWhile_all)

lemma skip_line_append: "newline \<notin> set p \<Longrightarrow> skip_line (p @ newline # r) = Some r"
  by (induction p) auto

lemma skip_line_none: "newline \<notin> set p \<Longrightarrow> skip_line p = None"
  by (induction p) auto

lemma sim_refl [simp]: "sim s s"
  by (simp add: sim_def)

lemma same_read_refl [simp]: "same_read x x"
  by (cases x) simp_all

lemma sim_insert: "between_tokens a b \<Longrightarrow> newline \<notin> set txt \<Longrightarrow> sim (a @ b) (a @ comment txt @ b)"
  by (auto simp: sim_def)

lemma read_int_hash:
  "read_int (CHR ''#'' # s) = (case skip_line s of None \<Rightarrow> Eof | Some r \<Rightarrow> read_int r)"
  by (simp add: read_int_def isspace_def split: option.splits)

lemma read_int_comment: "newline \<notin> set txt \<Longrightarrow> read_int (comment txt @ b) = read_int b"
  by (simp add: comment_def read_int_hash skip_line_append)

lemma read_int_token:
  "\<not> isspace c \<Longrightarrow> c \<noteq> CHR ''#'' \<Longrightarrow>
   read_int (c # s) = (case scan_int (c # s) of None \<Rightarrow> Bad | Some (v, r) \<Rightarrow> Got v r)"
  by (simp add: read_int_def)

lemma scan_int_Cons:
  "scan_int (c # t) =
     (if c = CHR ''-'' then scan_digits True t
      else if c = CHR ''+'' then scan_digits False t
      else scan_digits False (c # t))"
  by (simp add: scan_int_def scan_digits_def)

lemma isdigit_simps [simp]: "\<not> isdigit CHR ''#''" "\<not> isdigit CHR ''-''" "\<not> isdigit CHR ''+''"
  by (simp_all add: isdigit_def)

lemma comment_head: "comment txt @ b = CHR ''#'' # txt @ newline # b"
  by (simp add: comment_def)

text \<open>The digits of the token end inside \<open>d\<close>, or \<open>d\<close> is all digits and \<open>b\<close> does not go on with one.\<close>

lemma scan_digits_insert:
  assumes "list_all isdigit d \<longrightarrow> b = [] \<or> isspace (hd b)"
  shows "(scan_digits neg (d @ b) = None \<and> scan_digits neg (d @ comment txt @ b) = None) \<or>
         (\<exists>v q d'. scan_digits neg (d @ b) = Some (v, d' @ b) \<and>
                  scan_digits neg (d @ comment txt @ b) = Some (v, d' @ comment txt @ b) \<and>
                  d = q @ d' \<and> list_all isdigit q)"
proof (cases "list_all isdigit d")
  case True
  then have nb: "b = [] \<or> \<not> isdigit (hd b)" using assms isspace_not_digit by auto
  have tb: "takeWhile isdigit (d @ b) = d" "dropWhile isdigit (d @ b) = b"
    using True nb by (cases b; simp add: takeWhile_digits dropWhile_digits list_all_iff)+
  have tc: "takeWhile isdigit (d @ comment txt @ b) = d"
    "dropWhile isdigit (d @ comment txt @ b) = comment txt @ b"
    using True by (simp_all add: comment_head takeWhile_digits dropWhile_digits)
  show ?thesis
  proof (cases "d = []")
    case True
    then show ?thesis using tb tc by (simp add: scan_digits_def)
  next
    case False
    then have "scan_digits neg (d @ b) = Some (store_int (if neg then - decimal d else decimal d), [] @ b)"
      "scan_digits neg (d @ comment txt @ b) =
         Some (store_int (if neg then - decimal d else decimal d), [] @ comment txt @ b)"
      using tb tc by (simp_all add: scan_digits_def)
    then show ?thesis using True by (metis append_Nil2)
  qed
next
  case False
  then obtain e where e: "e \<in> set d" "\<not> isdigit e" by (auto simp: list_all_iff)
  let ?q = "takeWhile isdigit d" and ?d' = "dropWhile isdigit d"
  have t: "takeWhile isdigit (d @ X) = ?q" "dropWhile isdigit (d @ X) = ?d' @ X" for X
    using e by (simp_all add: takeWhile_append1 dropWhile_append1)
  have q: "d = ?q @ ?d'" "list_all isdigit ?q"
    by (simp_all add: list_all_iff) (meson set_takeWhileD)
  show ?thesis
  proof (cases "?q = []")
    case True
    then show ?thesis by (simp add: scan_digits_def t)
  next
    case False
    then have "scan_digits neg (d @ b) = Some (store_int (if neg then - decimal ?q else decimal ?q), ?d' @ b)"
      "scan_digits neg (d @ comment txt @ b) =
         Some (store_int (if neg then - decimal ?q else decimal ?q), ?d' @ comment txt @ b)"
      by (simp_all add: scan_digits_def t)
    then show ?thesis using q by blast
  qed
qed

lemma isspace_plus [simp]: "\<not> isspace CHR ''+''"
  by (simp add: isspace_def)

lemma between_tokens_suffix:
  assumes "in_comment (q @ d) = in_comment d" "between_tokens (q @ d) b"
  shows "between_tokens d b"
proof (cases "d = []")
  case True
  then show ?thesis by (simp add: between_tokens_def)
next
  case False
  then show ?thesis using assms by (simp add: between_tokens_def)
qed

lemma between_tokens_no_space:
  assumes "between_tokens a b" "a \<noteq> []" "\<not> isspace (last a)"
  shows "b = [] \<or> isspace (hd b)"
  using assms by (simp add: between_tokens_def)

lemma digits_no_hash: "list_all isdigit q \<Longrightarrow> CHR ''#'' \<notin> set q"
  by (auto simp: list_all_iff)

lemma last_digits_no_space: "list_all isdigit d \<Longrightarrow> d \<noteq> [] \<Longrightarrow> \<not> isspace (last d)"
  using isdigit_not_space by (auto simp: list_all_iff)

text \<open>A token that starts inside \<open>a\<close>: the digits after the sign \<open>pre\<close>.\<close>

lemma scan_token_insert:
  assumes bt: "between_tokens (pre @ d) b" and nl: "newline \<notin> set txt"
    and pre: "CHR ''#'' \<notin> set pre" "pre = [] \<or> \<not> isspace (last pre)" "pre @ d \<noteq> []"
  shows "same_read
           (case scan_digits neg (d @ b) of None \<Rightarrow> Bad | Some (v, r) \<Rightarrow> Got v r)
           (case scan_digits neg (d @ comment txt @ b) of None \<Rightarrow> Bad | Some (v, r) \<Rightarrow> Got v r)"
proof -
  have "list_all isdigit d \<longrightarrow> b = [] \<or> isspace (hd b)"
  proof
    assume d: "list_all isdigit d"
    have "\<not> isspace (last (pre @ d))"
      using d pre(2,3) last_digits_no_space [of d] by (cases "d = []") simp_all
    with bt pre(3) show "b = [] \<or> isspace (hd b)" by (rule between_tokens_no_space)
  qed
  then have "(scan_digits neg (d @ b) = None \<and> scan_digits neg (d @ comment txt @ b) = None) \<or>
         (\<exists>v q d'. scan_digits neg (d @ b) = Some (v, d' @ b) \<and>
                  scan_digits neg (d @ comment txt @ b) = Some (v, d' @ comment txt @ b) \<and>
                  d = q @ d' \<and> list_all isdigit q)"
    by (rule scan_digits_insert)
  then show ?thesis
  proof
    assume "scan_digits neg (d @ b) = None \<and> scan_digits neg (d @ comment txt @ b) = None"
    then show ?thesis by simp
  next
    assume "\<exists>v q d'. scan_digits neg (d @ b) = Some (v, d' @ b) \<and>
                  scan_digits neg (d @ comment txt @ b) = Some (v, d' @ comment txt @ b) \<and>
                  d = q @ d' \<and> list_all isdigit q"
    then obtain v q d' where r: "scan_digits neg (d @ b) = Some (v, d' @ b)"
      "scan_digits neg (d @ comment txt @ b) = Some (v, d' @ comment txt @ b)"
      and d: "d = q @ d'" "list_all isdigit q" by blast
    have "CHR ''#'' \<notin> set (pre @ q)" using pre(1) digits_no_hash [OF d(2)] by simp
    then have "in_comment ((pre @ q) @ d') = in_comment d'" by (rule in_comment_append)
    moreover have "between_tokens ((pre @ q) @ d') b" using bt d(1) by simp
    ultimately have "between_tokens d' b" by (rule between_tokens_suffix)
    then have "sim (d' @ b) (d' @ comment txt @ b)" using nl by (rule sim_insert)
    then show ?thesis using r by simp
  qed
qed

lemma read_int_insert:
  "between_tokens a b \<Longrightarrow> newline \<notin> set txt \<Longrightarrow>
   same_read (read_int (a @ b)) (read_int (a @ comment txt @ b))"
proof (induction a rule: length_induct)
  case (1 a)
  note bt = "1.prems"(1) and nl = "1.prems"(2)
  show ?case
  proof (cases a)
    case Nil
    then show ?thesis using nl by (simp add: read_int_comment)
  next
    case (Cons c a1)
    consider (space) "isspace c" | (hash) "c = CHR ''#''" | (tok) "\<not> isspace c" "c \<noteq> CHR ''#''"
      by blast
    then show ?thesis
    proof cases
      case space
      then have "c \<noteq> CHR ''#''" by auto
      then have "in_comment ([c] @ a1) = in_comment a1" by (simp add: in_comment_Cons)
      moreover have "between_tokens ([c] @ a1) b" using bt Cons by simp
      ultimately have "between_tokens a1 b" by (rule between_tokens_suffix)
      moreover have "length a1 < length a" using Cons by simp
      ultimately have "same_read (read_int (a1 @ b)) (read_int (a1 @ comment txt @ b))"
        using "1.IH" nl by blast
      then show ?thesis using space Cons by (simp add: read_int_space)
    next
      case hash
      have "\<not> in_comment (CHR ''#'' # a1)" using bt Cons hash by (simp add: between_tokens_def)
      then have "newline \<in> set a1" by (simp add: in_comment_hash)
      then obtain p a2 where a1: "a1 = p @ newline # a2" "newline \<notin> set p"
        by (meson split_list_first)
      have "in_comment ((CHR ''#'' # p) @ newline # a2) = in_comment a2"
        by (rule in_comment_newline)
      then have "in_comment ((CHR ''#'' # p @ [newline]) @ a2) = in_comment a2" by simp
      moreover have "between_tokens ((CHR ''#'' # p @ [newline]) @ a2) b"
        using bt Cons hash a1 by simp
      ultimately have "between_tokens a2 b" by (rule between_tokens_suffix)
      moreover have "length a2 < length a" using Cons a1 by simp
      ultimately have ih: "same_read (read_int (a2 @ b)) (read_int (a2 @ comment txt @ b))"
        using "1.IH" nl by blast
      have "read_int (a @ X) = read_int (a2 @ X)" for X
      proof -
        have "skip_line (p @ newline # (a2 @ X)) = Some (a2 @ X)"
          using a1(2) by (rule skip_line_append)
        then show ?thesis using Cons hash a1 by (simp add: read_int_hash)
      qed
      then show ?thesis using ih by simp
    next
      case tok
      have r: "read_int (a @ X) =
          (case scan_int (c # a1 @ X) of None \<Rightarrow> Bad | Some (v, r) \<Rightarrow> Got v r)" for X
        using tok Cons by (simp add: read_int_token)
      consider (minus) "c = CHR ''-''" | (plus) "c = CHR ''+''"
        | (digit) "c \<noteq> CHR ''-''" "c \<noteq> CHR ''+''" by blast
      then show ?thesis
      proof cases
        case minus
        have "same_read
           (case scan_digits True (a1 @ b) of None \<Rightarrow> Bad | Some (v, r) \<Rightarrow> Got v r)
           (case scan_digits True (a1 @ comment txt @ b) of None \<Rightarrow> Bad | Some (v, r) \<Rightarrow> Got v r)"
          using bt nl Cons minus by (intro scan_token_insert [of "[c]"]) simp_all
        then show ?thesis unfolding r by (simp add: scan_int_Cons minus)
      next
        case plus
        have "same_read
           (case scan_digits False (a1 @ b) of None \<Rightarrow> Bad | Some (v, r) \<Rightarrow> Got v r)
           (case scan_digits False (a1 @ comment txt @ b) of None \<Rightarrow> Bad | Some (v, r) \<Rightarrow> Got v r)"
          using bt nl Cons plus by (intro scan_token_insert [of "[c]"]) simp_all
        then show ?thesis unfolding r by (simp add: scan_int_Cons plus)
      next
        case digit
        have "same_read
           (case scan_digits False ((c # a1) @ b) of None \<Rightarrow> Bad | Some (v, r) \<Rightarrow> Got v r)
           (case scan_digits False ((c # a1) @ comment txt @ b) of None \<Rightarrow> Bad | Some (v, r) \<Rightarrow> Got v r)"
          using bt nl Cons by (intro scan_token_insert [of "[]"]) simp_all
        then show ?thesis unfolding r using digit by (simp add: scan_int_Cons)
      qed
    qed
  qed
qed

lemma read_int_sim:
  assumes "sim s s'"
  shows "same_read (read_int s) (read_int s')"
proof -
  from assms consider (same) "s' = s"
    | (ins) a b cm where "s = a @ b" "s' = a @ comment cm @ b" "newline \<notin> set cm"
        "between_tokens a b"
    by (auto simp: sim_def)
  then show ?thesis
  proof cases
    case same
    then show ?thesis by simp
  next
    case ins
    then show ?thesis using read_int_insert by simp
  qed
qed

lemma same_read_cases:
  assumes "same_read x y"
  obtains (eof) "x = Eof" "y = Eof" | (bad) "x = Bad" "y = Bad"
    | (got) v r r' where "x = Got v r" "y = Got v r'" "sim r r'"
  using assms by (cases x; cases y) auto

lemma read_header_sim:
  assumes "sim s s'"
  shows "(\<exists>e. read_header s = Inl e \<and> read_header s' = Inl e) \<or>
         (\<exists>hd r r'. read_header s = Inr (hd, r) \<and> read_header s' = Inr (hd, r') \<and> sim r r')"
proof -
  from read_int_sim [OF assms] show ?thesis
  proof (cases rule: same_read_cases)
    case eof
    then show ?thesis by (simp add: read_header_def)
  next
    case bad
    then show ?thesis by (simp add: read_header_def)
  next
    case (got w s1 s1')
    from read_int_sim [OF got(3)] show ?thesis
    proof (cases rule: same_read_cases)
      case eof
      then show ?thesis using got by (simp add: read_header_def)
    next
      case bad
      then show ?thesis using got by (simp add: read_header_def)
    next
      case g2: (got h s2 s2')
      from read_int_sim [OF g2(3)] show ?thesis
      proof (cases rule: same_read_cases)
        case eof
        then show ?thesis using got g2 by (simp add: read_header_def)
      next
        case bad
        then show ?thesis using got g2 by (simp add: read_header_def)
      next
        case g3: (got m s3 s3')
        then show ?thesis using got g2 by (simp add: read_header_def)
      qed
    qed
  qed
qed

lemma read_pixels_sim:
  "sim s s' \<Longrightarrow> i + k = n \<Longrightarrow>
   outcome (read_pixels i n maxv pix s') = outcome (read_pixels i n maxv pix s)"
proof (induction k arbitrary: i pix s s')
  case 0
  then show ?case by (simp add: read_pixels_done)
next
  case (Suc k)
  then have i: "i < n" by simp
  from read_int_sim [OF Suc.prems(1)] show ?case
  proof (cases rule: same_read_cases)
    case eof
    then show ?thesis by (simp add: read_pixels_step [OF i])
  next
    case bad
    then show ?thesis by (simp add: read_pixels_step [OF i])
  next
    case (got v r r')
    have "outcome (read_pixels (Suc i) n maxv (pix[i := v]) r') =
          outcome (read_pixels (Suc i) n maxv (pix[i := v]) r)"
      using got(3) Suc.prems(2) by (intro Suc.IH) simp_all
    then show ?thesis using got by (simp add: read_pixels_step [OF i])
  qed
qed

lemma read_ints_sim:
  "sim s s' \<Longrightarrow> map_option fst (read_ints k s') = map_option fst (read_ints k s)"
proof (induction k arbitrary: s s')
  case 0
  then show ?case by simp
next
  case (Suc k)
  from read_int_sim [OF Suc.prems] show ?case
  proof (cases rule: same_read_cases)
    case eof
    then show ?thesis by simp
  next
    case bad
    then show ?thesis by simp
  next
    case (got v r r')
    from Suc.IH [OF got(3)] have "map_option fst (read_ints k r') = map_option fst (read_ints k r)" .
    then show ?thesis using got
      by (cases "read_ints k r"; cases "read_ints k r'") auto
  qed
qed

lemma read_magic_tag:
  "list_all isspace ws \<Longrightarrow> read_magic (ws @ CHR ''P'' # CHR ''3'' # s) = Some (''P3'', s)"
  by (simp add: read_magic_def dropWhile_append3 list_all_iff)

lemma load_image_sim:
  assumes "sim s s'" "list_all isspace ws"
  shows "load_image malloc_ok (ws @ ''P3'' @ s') = load_image malloc_ok (ws @ ''P3'' @ s)"
proof -
  from read_header_sim [OF assms(1)] show ?thesis
  proof
    assume "\<exists>e. read_header s = Inl e \<and> read_header s' = Inl e"
    then show ?thesis using assms(2) by (auto simp: load_image_def read_magic_tag)
  next
    assume "\<exists>hd r r'. read_header s = Inr (hd, r) \<and> read_header s' = Inr (hd, r') \<and> sim r r'"
    then obtain w h maxv r r' where hd: "read_header s = Inr ((w, h, maxv), r)"
      "read_header s' = Inr ((w, h, maxv), r')" and r: "sim r r'"
      by (metis prod_cases3)
    show ?thesis
    proof (cases "check_header w h maxv")
      case (Inl e)
      then show ?thesis using hd assms(2) by (simp add: load_image_def read_magic_tag)
    next
      case (Inr nvals)
      have "outcome (read_pixels 0 (nat nvals) maxv (replicate (nat nvals) 0) r') =
            outcome (read_pixels 0 (nat nvals) maxv (replicate (nat nvals) 0) r)"
        using r by (intro read_pixels_sim) simp_all
      then have "(case read_pixels 0 (nat nvals) maxv (replicate (nat nvals) 0) r' of
                    Inl e \<Rightarrow> Inl e
                  | Inr (pix, rest) \<Rightarrow> Inr \<lparr>width = w, height = h, max_value = maxv, channels = pix\<rparr>) =
                 (case read_pixels 0 (nat nvals) maxv (replicate (nat nvals) 0) r of
                    Inl e \<Rightarrow> Inl e
                  | Inr (pix, rest) \<Rightarrow> Inr \<lparr>width = w, height = h, max_value = maxv, channels = pix\<rparr>)"
        by (cases "read_pixels 0 (nat nvals) maxv (replicate (nat nvals) 0) r'";
            cases "read_pixels 0 (nat nvals) maxv (replicate (nat nvals) 0) r") (auto simp: outcome_def)
      then show ?thesis using hd Inr assms(2) by (simp add: load_image_def read_magic_tag)
    qed
  qed
qed

lemma sim_same_parse:
  assumes "sim s s'"
  shows "same_parse s s'"
proof -
  have "outcome (read_header s') = outcome (read_header s)"
    using read_header_sim [OF assms] by auto
  moreover have "outcome (read_pixels 0 n maxv pix s') =
                 outcome (read_pixels 0 n maxv pix s)" for n maxv pix
    using assms by (intro read_pixels_sim) simp_all
  ultimately show ?thesis
    using read_ints_sim [OF assms] load_image_sim [OF assms]
    by (simp add: same_parse_def)
qed

lemma same_parse_trans: "same_parse s t \<Longrightarrow> same_parse t u \<Longrightarrow> same_parse s u"
  by (simp add: same_parse_def)

lemma insert_comments_same_parse:
  "insert_comments cs s = Some s' \<Longrightarrow> same_parse s s'"
proof (induction cs arbitrary: s)
  case Nil
  then show ?case using sim_same_parse [of s s] by simp
next
  case (Cons c cs)
  obtain p cm where c: "c = (p, cm)" by (cases c)
  let ?t = "take p s @ comment cm @ drop p s"
  from Cons.prems c have ok: "newline \<notin> set cm" "between_tokens (take p s) (drop p s)"
    and rest: "insert_comments cs ?t = Some s'"
    by (auto split: if_splits)
  have "sim (take p s @ drop p s) ?t" using ok(2,1) by (rule sim_insert)
  then have "same_parse s ?t" by (simp add: sim_same_parse)
  moreover have "same_parse ?t s'" using rest by (rule Cons.IH)
  ultimately show ?case by (rule same_parse_trans)
qed


text \<open>
  C7. Let \<open>s\<close> be a stream of header and pixel tokens, what follows the tag of a file,
  and \<open>s'\<close> the stream \<open>s\<close> with any number of comments put between two tokens. Then
  \<open>s'\<close> parses as \<open>s\<close> does: the header gives the same three integers or the same error,
  the pixel loader the same buffer or the same error, any number of calls of \<open>read_int\<close>
  the same integers in the same order, and the whole file with the tag \<open>P3\<close> before the
  stream loads to the same image, or fails alike, and has the same output.
\<close>

theorem comments_ignored:
  assumes "insert_comments cs s = Some s'"
  shows "outcome (read_header s') = outcome (read_header s) \<and>
         outcome (read_pixels 0 n maxv pix s') = outcome (read_pixels 0 n maxv pix s) \<and>
         map_option fst (read_ints k s') = map_option fst (read_ints k s) \<and>
         (list_all isspace ws \<longrightarrow>
            load_image malloc_ok (ws @ ''P3'' @ s') = load_image malloc_ok (ws @ ''P3'' @ s) \<and>
            main malloc_ok (ws @ ''P3'' @ s') = main malloc_ok (ws @ ''P3'' @ s))"
proof -
  from insert_comments_same_parse [OF assms] have p: "same_parse s s'" .
  then have "load_image malloc_ok (ws @ ''P3'' @ s') = load_image malloc_ok (ws @ ''P3'' @ s)"
    if "list_all isspace ws"
    using that by (simp add: same_parse_def)
  then have "main malloc_ok (ws @ ''P3'' @ s') = main malloc_ok (ws @ ''P3'' @ s)"
    if "list_all isspace ws"
    using that by (simp add: main_def)
  with p show ?thesis by (simp add: same_parse_def)
qed

theorem comments_ignored_witness:
  "insert_comments [(3, ''w h''), (14, ''pixels'')] '' 1 1 255 7 8 9'' =
     Some ('' 1 #w h'' @ [newline] @ ''1 255 #pixels'' @ [newline] @ ''7 8 9'') \<and>
   load_image (\<lambda>n. True) (''P3'' @ '' 1 #w h'' @ [newline] @ ''1 255 #pixels'' @ [newline] @ ''7 8 9'') =
     Inr \<lparr>width = 1, height = 1, max_value = 255, channels = [7, 8, 9]\<rparr>"
proof -
  have i: "insert_comments [(3, ''w h''), (14, ''pixels'')] '' 1 1 255 7 8 9'' =
      Some ('' 1 #w h'' @ [newline] @ ''1 255 #pixels'' @ [newline] @ ''7 8 9'')"
    by code_simp
  have l: "load_image (\<lambda>n. True) (''P3'' @ '' 1 1 255 7 8 9'') =
      Inr \<lparr>width = 1, height = 1, max_value = 255, channels = [7, 8, 9]\<rparr>"
    by code_simp
  have w: "list_all isspace []" by simp
  from comments_ignored [OF i, of 0 0 "[]" 0 "[]" "\<lambda>n. True"] w
  have "load_image (\<lambda>n. True)
          ([] @ ''P3'' @ '' 1 #w h'' @ [newline] @ ''1 255 #pixels'' @ [newline] @ ''7 8 9'') =
        load_image (\<lambda>n. True) ([] @ ''P3'' @ '' 1 1 255 7 8 9'')"
    by blast
  with l i show ?thesis by simp
qed

end
